theory Spec2Isabelle
  imports Complex_Main "HOL-Library.Word" "HOL-Library.Sublist" "HOL-Library.AList"
    "HOL-Library.Multiset" "HOL-Library.Log_Nat"
begin

section \<open>JavaScript strings\<close>

text \<open>
  A JavaScript string is a sequence of 16-bit UTF-16 code units. String literals of the
  source are written \<open>js ''...''\<close> for their ASCII part and as explicit code units
  elsewhere (for instance \<open>0x26A0, 0xFE0F\<close> for the warning sign of the mock texts).
\<close>

type_synonym code_unit = "16 word"
type_synonym jsstring = "code_unit list"

definition js :: "string \<Rightarrow> jsstring" where
  "js s = map of_char s"

text \<open>\<open>String.prototype.includes(needle)\<close>: a search for the needle at every position.\<close>

fun js_includes :: "jsstring \<Rightarrow> jsstring \<Rightarrow> bool" where
  "js_includes [] needle = (needle = [])"
| "js_includes (c # cs) needle = (prefix needle (c # cs) \<or> js_includes cs needle)"

text \<open>
  The characters matched by \<open>\s\<close> in a regular expression and removed by
  \<open>String.prototype.trim\<close>: ECMAScript WhiteSpace and LineTerminator.
\<close>

definition is_space :: "code_unit \<Rightarrow> bool" where
  "is_space c \<longleftrightarrow>
     (0x09 \<le> c \<and> c \<le> 0x0D) \<or> c = 0x20 \<or> c = 0xA0 \<or> c = 0x1680 \<or>
     (0x2000 \<le> c \<and> c \<le> 0x200A) \<or> c = 0x2028 \<or> c = 0x2029 \<or> c = 0x202F \<or>
     c = 0x205F \<or> c = 0x3000 \<or> c = 0xFEFF"

definition js_trim :: "jsstring \<Rightarrow> jsstring" where
  "js_trim s = rev (dropWhile is_space (rev (dropWhile is_space s)))"

text \<open>\<open>s.split(sep).length\<close> for a one-character separator: one more than its occurrences.\<close>

definition split_length :: "code_unit \<Rightarrow> jsstring \<Rightarrow> nat" where
  "split_length sep s = Suc (length (filter (\<lambda>c. c = sep) s))"

text \<open>\<open>s.split(sep)[0]\<close> for a one-character separator: the part before its first occurrence.\<close>

definition split_first :: "code_unit \<Rightarrow> jsstring \<Rightarrow> jsstring" where
  "split_first sep s = takeWhile (\<lambda>c. c \<noteq> sep) s"

text \<open>The decimal digits of a natural number, as template interpolation prints it.\<close>

fun nat_to_string :: "nat \<Rightarrow> jsstring" where
  "nat_to_string n =
     (if n < 10 then [of_nat (48 + n)]
      else nat_to_string (n div 10) @ [of_nat (48 + n mod 10)])"

declare nat_to_string.simps [simp del]

section \<open>JSON values\<close>

text \<open>
  The values \<open>JSON.parse\<close> produces, the handlers compute with, and
  \<open>JSON.stringify\<close>/\<open>res.json\<close> serialise. An object is the list of its properties
  in the order of its own property keys, with distinct keys. A number is an IEEE-754
  double: \<open>JNum q\<close> is the finite double whose exact value is the rational \<open>q\<close>,
  \<open>JInf neg\<close> is \<open>Infinity\<close> or, with \<open>neg\<close>, \<open>-Infinity\<close>, and \<open>JNaN\<close> is \<open>NaN\<close>.
  The two zeros are one value \<open>JNum 0\<close>: no handler divides or compares them, and both
  are serialised as \<open>0\<close>. \<open>JSON.stringify\<close> writes \<open>JInf\<close> and \<open>JNaN\<close> as \<open>null\<close>.
\<close>

datatype json =
    JNull
  | JBool bool
  | JNum rat
  | JInf bool
  | JNaN
  | JStr jsstring
  | JArr "json list"
  | JObj "(jsstring \<times> json) list"

subsection \<open>Numbers\<close>

text \<open>
  The Number value for a real number \<open>x\<close> (ECMAScript, 6.1.6.1): the double nearest to
  \<open>x\<close>, the one with the even significand when two are equally near, and an infinity
  when that choice is \<open>2^1024\<close> in magnitude. A double is a multiple of the unit in the
  last place of its binade: \<open>2^(e - 52)\<close> for a magnitude in \<open>[2^e, 2^(e + 1))\<close>, and
  \<open>2^(-1074)\<close> below \<open>2^(-1022)\<close>. This is the rounding of a numeric literal by
  \<open>JSON.parse\<close> and of the exact result of an arithmetic operation.
\<close>

definition round_half_even :: "rat \<Rightarrow> int" where
  "round_half_even x =
     (let f = \<lfloor>x\<rfloor>; d = x - of_int f
      in if d < 1 / 2 \<or> (d = 1 / 2 \<and> even f) then f else f + 1)"

text \<open>\<open>\<lfloor>log\<^sub>2 x\<rfloor>\<close> for a positive rational \<open>x\<close>.\<close>

definition floor_log2 :: "rat \<Rightarrow> int" where
  "floor_log2 x =
     (let k = bitlen (fst (quotient_of x)) - bitlen (snd (quotient_of x))
      in if x < 2 powi k then k - 1 else k)"

definition number_of :: "rat \<Rightarrow> json" where
  "number_of x =
     (if x = 0 then JNum 0
      else
        (let e = max (floor_log2 \<bar>x\<bar>) (- 1022);
             ulp = 2 powi (e - 52);
             r = of_int (round_half_even (\<bar>x\<bar> / ulp)) * ulp
         in if 2 powi 1024 \<le> r then JInf (x < 0)
            else JNum (if x < 0 then - r else r)))"

subsection \<open>\<open>JSON.parse\<close>\<close>

definition is_json_ws :: "code_unit \<Rightarrow> bool" where
  "is_json_ws c \<longleftrightarrow> c = 0x09 \<or> c = 0x0A \<or> c = 0x0D \<or> c = 0x20"

definition skip_ws :: "jsstring \<Rightarrow> jsstring" where
  "skip_ws t = dropWhile is_json_ws t"

definition is_digit :: "code_unit \<Rightarrow> bool" where
  "is_digit c \<longleftrightarrow> 0x30 \<le> c \<and> c \<le> 0x39"

definition digits_value :: "jsstring \<Rightarrow> nat" where
  "digits_value ds = foldl (\<lambda>n c. 10 * n + (unat c - 48)) 0 ds"

definition hex_value :: "code_unit \<Rightarrow> nat option" where
  "hex_value c =
     (if 0x30 \<le> c \<and> c \<le> 0x39 then Some (unat c - 48)
      else if 0x41 \<le> c \<and> c \<le> 0x46 then Some (unat c - 55)
      else if 0x61 \<le> c \<and> c \<le> 0x66 then Some (unat c - 87)
      else None)"

definition hex4 :: "code_unit \<Rightarrow> code_unit \<Rightarrow> code_unit \<Rightarrow> code_unit \<Rightarrow> code_unit option" where
  "hex4 a b c d =
     (case (hex_value a, hex_value b, hex_value c, hex_value d) of
        (Some w, Some x, Some y, Some z) \<Rightarrow> Some (of_nat (4096 * w + 256 * x + 16 * y + z))
      | _ \<Rightarrow> None)"

text \<open>The one-character escapes of a JSON string: \<open>\" \\ \/ \b \f \n \r \t\<close>.\<close>

definition simple_escape :: "code_unit \<Rightarrow> code_unit option" where
  "simple_escape e =
     (if e = 0x22 then Some 0x22 else if e = 0x5C then Some 0x5C
      else if e = 0x2F then Some 0x2F else if e = 0x62 then Some 0x08
      else if e = 0x66 then Some 0x0C else if e = 0x6E then Some 0x0A
      else if e = 0x72 then Some 0x0D else if e = 0x74 then Some 0x09
      else None)"

definition cons_result :: "code_unit \<Rightarrow> (jsstring \<times> jsstring) option \<Rightarrow> (jsstring \<times> jsstring) option" where
  "cons_result c r = (case r of None \<Rightarrow> None | Some (s, rest) \<Rightarrow> Some (c # s, rest))"

text \<open>
  The characters of a string literal after its opening quote, up to the closing quote:
  the decoded string and the rest of the input. Control characters below \<open>0x20\<close> are
  not allowed unescaped.
\<close>

fun parse_chars :: "jsstring \<Rightarrow> (jsstring \<times> jsstring) option" where
  "parse_chars [] = None"
| "parse_chars (c # cs) =
     (if c = 0x22 then Some ([], cs)
      else if c = 0x5C then
        (case cs of
           [] \<Rightarrow> None
         | e # r \<Rightarrow>
             if e = 0x75 then
               (case r of
                  h1 # h2 # h3 # h4 # r' \<Rightarrow>
                    (case hex4 h1 h2 h3 h4 of
                       None \<Rightarrow> None
                     | Some w \<Rightarrow> cons_result w (parse_chars r'))
                | _ \<Rightarrow> None)
             else
               (case simple_escape e of
                  None \<Rightarrow> None
                | Some w \<Rightarrow> cons_result w (parse_chars r)))
      else if c < 0x20 then None
      else cons_result c (parse_chars cs))"

text \<open>
  A number: \<open>-? (0 | [1-9][0-9]*) (. [0-9]+)? ([eE] [+-]? [0-9]+)?\<close>, read from an input
  that starts with \<open>-\<close> or a digit. \<open>number_value\<close> is the mathematical value of the
  literal, an exact rational; \<open>parse_value\<close> below rounds it to a double with
  \<open>number_of\<close>.
\<close>

definition parse_int_part :: "jsstring \<Rightarrow> (jsstring \<times> jsstring) option" where
  "parse_int_part t =
     (case t of
        [] \<Rightarrow> None
      | d # r \<Rightarrow>
          if d = 0x30 then Some ([d], r)
          else if is_digit d then Some (takeWhile is_digit t, dropWhile is_digit t)
          else None)"

definition parse_frac_part :: "jsstring \<Rightarrow> (jsstring \<times> jsstring) option" where
  "parse_frac_part t =
     (case t of
        [] \<Rightarrow> Some ([], t)
      | p # r \<Rightarrow>
          if p = 0x2E then
            (if takeWhile is_digit r = [] then None
             else Some (takeWhile is_digit r, dropWhile is_digit r))
          else Some ([], t))"

definition parse_exp_part :: "jsstring \<Rightarrow> (int \<times> jsstring) option" where
  "parse_exp_part t =
     (case t of
        [] \<Rightarrow> Some (0, t)
      | e # r \<Rightarrow>
          if e = 0x65 \<or> e = 0x45 then
            (let neg = (case r of [] \<Rightarrow> False | s # _ \<Rightarrow> s = 0x2D);
                 r1 = (case r of [] \<Rightarrow> r | s # r' \<Rightarrow> if s = 0x2B \<or> s = 0x2D then r' else r)
             in if takeWhile is_digit r1 = [] then None
                else Some ((if neg then - int (digits_value (takeWhile is_digit r1))
                            else int (digits_value (takeWhile is_digit r1))),
                           dropWhile is_digit r1))
          else Some (0, t))"

definition number_value :: "bool \<Rightarrow> jsstring \<Rightarrow> jsstring \<Rightarrow> int \<Rightarrow> rat" where
  "number_value neg ds fs ex =
     (let m = of_nat (digits_value ds) + of_nat (digits_value fs) / 10 ^ length fs;
          v = (if ex < 0 then m / 10 ^ nat (- ex) else m * 10 ^ nat ex)
      in if neg then - v else v)"

definition parse_number :: "jsstring \<Rightarrow> (rat \<times> jsstring) option" where
  "parse_number t =
     (let neg = (case t of [] \<Rightarrow> False | c # _ \<Rightarrow> c = 0x2D);
          t1 = (if neg then tl t else t)
      in case parse_int_part t1 of
           None \<Rightarrow> None
         | Some (ds, t2) \<Rightarrow>
             (case parse_frac_part t2 of
                None \<Rightarrow> None
              | Some (fs, t3) \<Rightarrow>
                  (case parse_exp_part t3 of
                     None \<Rightarrow> None
                   | Some (ex, t4) \<Rightarrow> Some (number_value neg ds fs ex, t4))))"

text \<open>
  The order of the own property keys of an object (ECMAScript, OrdinaryOwnPropertyKeys):
  first the keys that are array indices, in ascending numeric order, then the other
  strings in the order in which they were added. An array index is the canonical decimal
  text of an integer from \<open>0\<close> to \<open>2^32 - 2\<close>.
\<close>

definition is_array_index :: "jsstring \<Rightarrow> bool" where
  "is_array_index k \<longleftrightarrow>
     k \<noteq> [] \<and> list_all is_digit k \<and> (length k = 1 \<or> hd k \<noteq> 0x30) \<and>
     digits_value k < 2 ^ 32 - 1"

definition own_property_order :: "(jsstring \<times> json) list \<Rightarrow> (jsstring \<times> json) list" where
  "own_property_order kvs =
     sort_key (\<lambda>kv. digits_value (fst kv)) (filter (\<lambda>kv. is_array_index (fst kv)) kvs) @
     filter (\<lambda>kv. \<not> is_array_index (fst kv)) kvs"

text \<open>
  The members of an object literal in source order become the properties of the object:
  a repeated key overwrites the value of the earlier one and keeps its place.
\<close>

definition object_of :: "(jsstring \<times> json) list \<Rightarrow> json" where
  "object_of kvs =
     JObj (own_property_order (foldl (\<lambda>acc kv. AList.update (fst kv) (snd kv) acc) [] kvs))"

text \<open>
  The recursive descent over values. \<open>parse_value\<close> reads one value after optional
  white space and returns it with the rest of the input; \<open>parse_elements\<close> reads the
  elements of an array up to its \<open>]\<close>, \<open>parse_members\<close> the members of an object up to
  its \<open>}\<close>. A value always consumes input; the test \<open>length r < length t\<close> records
  that for the termination proof and never fails.
\<close>

function parse_value :: "jsstring \<Rightarrow> (json \<times> jsstring) option"
  and parse_elements :: "jsstring \<Rightarrow> (json list \<times> jsstring) option"
  and parse_members :: "jsstring \<Rightarrow> ((jsstring \<times> json) list \<times> jsstring) option"
where
  "parse_value t =
     (case skip_ws t of
        [] \<Rightarrow> None
      | c # cs \<Rightarrow>
          if c = 0x7B then
            (case skip_ws cs of
               [] \<Rightarrow> None
             | d # ds \<Rightarrow>
                 if d = 0x7D then Some (JObj [], ds)
                 else (case parse_members (d # ds) of
                         None \<Rightarrow> None
                       | Some (kvs, r) \<Rightarrow> Some (object_of kvs, r)))
          else if c = 0x5B then
            (case skip_ws cs of
               [] \<Rightarrow> None
             | d # ds \<Rightarrow>
                 if d = 0x5D then Some (JArr [], ds)
                 else (case parse_elements (d # ds) of
                         None \<Rightarrow> None
                       | Some (vs, r) \<Rightarrow> Some (JArr vs, r)))
          else if c = 0x22 then
            (case parse_chars cs of
               None \<Rightarrow> None
             | Some (s, r) \<Rightarrow> Some (JStr s, r))
          else if c = 0x2D \<or> is_digit c then
            (case parse_number (c # cs) of
               None \<Rightarrow> None
             | Some (n, r) \<Rightarrow> Some (number_of n, r))
          else if prefix (js ''true'') (c # cs) then Some (JBool True, drop 4 (c # cs))
          else if prefix (js ''false'') (c # cs) then Some (JBool False, drop 5 (c # cs))
          else if prefix (js ''null'') (c # cs) then Some (JNull, drop 4 (c # cs))
          else None)"
| "parse_elements t =
     (case parse_value t of
        None \<Rightarrow> None
      | Some (v, r) \<Rightarrow>
          if length r < length t then
            (case skip_ws r of
               [] \<Rightarrow> None
             | d # ds \<Rightarrow>
                 if d = 0x2C then
                   (case parse_elements ds of
                      None \<Rightarrow> None
                    | Some (vs, r') \<Rightarrow> Some (v # vs, r'))
                 else if d = 0x5D then Some ([v], ds)
                 else None)
          else None)"
| "parse_members t =
     (case skip_ws t of
        [] \<Rightarrow> None
      | q # cs \<Rightarrow>
          if q = 0x22 then
            (case parse_chars cs of
               None \<Rightarrow> None
             | Some (k, r) \<Rightarrow>
                 (case skip_ws r of
                    [] \<Rightarrow> None
                  | col # r1 \<Rightarrow>
                      if col = 0x3A then
                        (case parse_value r1 of
                           None \<Rightarrow> None
                         | Some (v, r2) \<Rightarrow>
                             if length r2 < length r1 then
                               (case skip_ws r2 of
                                  [] \<Rightarrow> None
                                | d # ds \<Rightarrow>
                                    if d = 0x2C then
                                      (case parse_members ds of
                                         None \<Rightarrow> None
                                       | Some (kvs, r') \<Rightarrow> Some ((k, v) # kvs, r'))
                                    else if d = 0x7D then Some ([(k, v)], ds)
                                    else None)
                             else None)
                      else None))
          else None)"
  by pat_completeness auto

termination
proof (relation "measure (\<lambda>x. case x of
          Inl t \<Rightarrow> 2 * length t
        | Inr (Inl t) \<Rightarrow> 2 * length t + 1
        | Inr (Inr t) \<Rightarrow> 2 * length t + 1)", goal_cases)
  have ws: "length (skip_ws t) \<le> length t" for t
    by (simp add: skip_ws_def length_dropWhile_le)
  have chars: "length r < length cs" if "parse_chars cs = Some (s, r)" for cs s r
    using that
  proof (induction cs arbitrary: s r rule: parse_chars.induct)
    case 1
    then show ?case by simp
  next
    case (2 c cs)
    then show ?case
      by (auto simp: cons_result_def split: if_splits list.splits option.splits)
        fastforce+
  qed
  {
    case 1
    then show ?case by simp
  next
    case (2 t c cs d ds)
    have "length (d # ds) \<le> length cs" using 2(3) ws [of cs] by simp
    moreover have "length (c # cs) \<le> length t" using 2(1) ws [of t] by simp
    ultimately show ?case by simp
  next
    case (3 t c cs d ds)
    have "length (d # ds) \<le> length cs" using 3(4) ws [of cs] by simp
    moreover have "length (c # cs) \<le> length t" using 3(1) ws [of t] by simp
    ultimately show ?case by simp
  next
    case (4 t)
    then show ?case by simp
  next
    case (5 t p v r d ds)
    have "length (d # ds) \<le> length r" using 5(4) ws [of r] by simp
    with 5(3) show ?case by simp
  next
    case (6 t q cs p k r col r1)
    have "length (col # r1) \<le> length r" using 6(5) ws [of r] by simp
    moreover have "length r < length cs" using 6(3) 6(4) [symmetric] chars [of cs k r] by simp
    moreover have "length (q # cs) \<le> length t" using 6(1) ws [of t] by simp
    ultimately show ?case by simp
  next
    case (7 t q cs p k r col r1 p' v r2 d ds)
    have "length (d # ds) \<le> length r2" using 7(10) ws [of r2] by simp
    moreover have "length (col # r1) \<le> length r" using 7(5) ws [of r] by simp
    moreover have "length r < length cs" using 7(3) 7(4) [symmetric] chars [of cs k r] by simp
    moreover have "length (q # cs) \<le> length t" using 7(1) ws [of t] by simp
    ultimately show ?case using 7(9) by simp
  }
qed

declare parse_value.simps [simp del] parse_elements.simps [simp del] parse_members.simps [simp del]

text \<open>
  \<open>JSON.parse(text)\<close>: one value, with nothing but white space after it. \<open>None\<close> is
  the \<open>SyntaxError\<close> the built-in throws.
\<close>

definition JSON_parse :: "jsstring \<Rightarrow> json option" where
  "JSON_parse t =
     (case parse_value t of
        None \<Rightarrow> None
      | Some (v, r) \<Rightarrow> if skip_ws r = [] then Some v else None)"

section \<open>The response normalizer of the production server\<close>

text \<open>
  \<open>parseJSON\<close> (part 000, lines 25 to 31) removes Markdown fences with two global regular
  expression replacements, trims, and then tries \<open>JSON.parse\<close> twice. Each regular
  expression is modelled by the scan that a global \<open>replace\<close> performs: from left to
  right, a match is removed and the scan goes on after it, any other character is kept.
\<close>

text \<open>
  A match of \<open>```json\<close> at the head of the input, ignoring case (flag \<open>i\<close>: only the
  ASCII letters of both cases match a letter of the pattern).
\<close>

definition is_fence_json :: "jsstring \<Rightarrow> bool" where
  "is_fence_json t \<longleftrightarrow>
     (case t of
        b1 # b2 # b3 # cj # cs # co # cn # _ \<Rightarrow>
          b1 = 0x60 \<and> b2 = 0x60 \<and> b3 = 0x60 \<and> (cj = 0x6A \<or> cj = 0x4A) \<and>
          (cs = 0x73 \<or> cs = 0x53) \<and> (co = 0x6F \<or> co = 0x4F) \<and> (cn = 0x6E \<or> cn = 0x4E)
      | _ \<Rightarrow> False)"

text \<open>\<open>.replace(/```json\s*/gi, "")\<close>\<close>

function strip_json_fences :: "jsstring \<Rightarrow> jsstring" where
  "strip_json_fences [] = []"
| "strip_json_fences (c # cs) =
     (if is_fence_json (c # cs) then strip_json_fences (dropWhile is_space (drop 6 cs))
      else c # strip_json_fences cs)"
  by pat_completeness auto

termination
proof (relation "measure length", goal_cases)
  case 1
  then show ?case by simp
next
  case (2 c cs)
  have "length (dropWhile is_space (drop 6 cs)) \<le> length (drop 6 cs)"
    by (rule length_dropWhile_le)
  then show ?case by simp
next
  case (3 c cs)
  then show ?case by simp
qed

text \<open>\<open>.replace(/```\s*/g, "")\<close>\<close>

function strip_fences :: "jsstring \<Rightarrow> jsstring" where
  "strip_fences [] = []"
| "strip_fences (c # cs) =
     (if prefix [0x60, 0x60, 0x60] (c # cs) then strip_fences (dropWhile is_space (drop 2 cs))
      else c # strip_fences cs)"
  by pat_completeness auto

termination
proof (relation "measure length", goal_cases)
  case 1
  then show ?case by simp
next
  case (2 c cs)
  have "length (dropWhile is_space (drop 2 cs)) \<le> length (drop 2 cs)"
    by (rule length_dropWhile_le)
  then show ?case by simp
next
  case (3 c cs)
  then show ?case by simp
qed

text \<open>
  \<open>t.match(/\{[\s\S]*\}/)\<close>: the match starts at the first \<open>{\<close> and, the star being
  greedy, ends at the last \<open>}\<close> after it; there is no match without such a pair.
\<close>

definition match_braces :: "jsstring \<Rightarrow> jsstring option" where
  "match_braces t =
     (let u = dropWhile (\<lambda>c. c \<noteq> 0x7B) t
      in if u = [] then None
         else if 0x7D \<in> set (tl u) then Some (rev (dropWhile (\<lambda>c. c \<noteq> 0x7D) (rev u)))
         else None)"

definition parseJSON :: "jsstring \<Rightarrow> json" where
  "parseJSON text' =
     (let t = js_trim (strip_fences (strip_json_fences text'))
      in case JSON_parse t of
           Some v \<Rightarrow> v
         | None \<Rightarrow>
             (case match_braces t of
                None \<Rightarrow> JObj []
              | Some m \<Rightarrow> (case JSON_parse m of Some v \<Rightarrow> v | None \<Rightarrow> JObj [])))"

section \<open>Errors and the rate-limit classifier\<close>

text \<open>
  A thrown error, as far as the handlers look at it: its \<open>status\<close> property, if any,
  and its \<open>message\<close>, a string as for every \<open>Error\<close> object.
\<close>

record js_error =
  status :: "json option"
  message :: jsstring

text \<open>\<open>isQuotaError\<close> (server.ts line 39, part 000 line 42, part 001 line 24).\<close>

definition isQuotaError :: "js_error \<Rightarrow> bool" where
  "isQuotaError e \<longleftrightarrow>
     status e = Some (JNum 429) \<or> js_includes (message e) (js ''429'') \<or>
     js_includes (message e) (js ''RESOURCE_EXHAUSTED'')"

section \<open>The history table\<close>

text \<open>
  A row of \<open>analysis_history\<close>. \<open>created_at\<close> is \<open>CURRENT_TIMESTAMP\<close>, which counts
  whole seconds; the column \<open>result\<close> holds the serialisation (\<open>JSON.stringify\<close>) of the
  value recorded here. The table is the list of its rows in insertion order, which is
  the order of their identifiers.
\<close>

record row =
  row_id :: nat
  user_email :: jsstring
  row_type :: jsstring
  content :: jsstring
  result :: json
  created_at :: nat

type_synonym db = "row list"

text \<open>
  A string bound to a parameter of a statement reaches the storage as UTF-8: a surrogate
  that is not part of a pair of a high and a low surrogate has no encoding and becomes
  the replacement character \<open>U+FFFD\<close>.
\<close>

definition is_high_surrogate :: "code_unit \<Rightarrow> bool" where
  "is_high_surrogate c \<longleftrightarrow> 0xD800 \<le> c \<and> c \<le> 0xDBFF"

definition is_low_surrogate :: "code_unit \<Rightarrow> bool" where
  "is_low_surrogate c \<longleftrightarrow> 0xDC00 \<le> c \<and> c \<le> 0xDFFF"

fun bound_text :: "jsstring \<Rightarrow> jsstring" where
  "bound_text [] = []"
| "bound_text [c] = [if is_high_surrogate c \<or> is_low_surrogate c then 0xFFFD else c]"
| "bound_text (c # c' # cs) =
     (if is_high_surrogate c \<and> is_low_surrogate c' then c # c' # bound_text cs
      else if is_high_surrogate c \<or> is_low_surrogate c then 0xFFFD # bound_text (c' # cs)
      else c # bound_text (c' # cs))"

text \<open>
  \<open>INSERT INTO analysis_history (user_email, type, content, result) VALUES (?, ?, ?, ?)\<close>
  at time \<open>t\<close>: the storage assigns the next identifier and the time stamp. The fourth
  parameter is the text \<open>JSON.stringify\<close> made of \<open>r\<close>, which escapes every lone
  surrogate.
\<close>

definition insert_history :: "nat \<Rightarrow> jsstring \<Rightarrow> jsstring \<Rightarrow> jsstring \<Rightarrow> json \<Rightarrow> db \<Rightarrow> db" where
  "insert_history t email ty c r d =
     d @ [\<lparr>row_id = Suc (foldr max (map row_id d) 0), user_email = bound_text email,
            row_type = bound_text ty, content = bound_text c, result = r, created_at = t\<rparr>]"

text \<open>
  \<open>SELECT * FROM analysis_history WHERE user_email = ? ORDER BY created_at DESC LIMIT n\<close>.
  The statement names no second sort key: rows of equal time stamp come in the order of
  their identifiers, oldest first, as the storage engine sorts them.
\<close>

definition select_history :: "nat \<Rightarrow> jsstring \<Rightarrow> db \<Rightarrow> row list" where
  "select_history n email d =
     take n (sort_key (\<lambda>r. - int (created_at r))
       (filter (\<lambda>r. user_email r = bound_text email) d))"

section \<open>Requests, responses and the environment of a request\<close>

record upload =
  originalname :: jsstring
  exif_data :: "json option"

text \<open>
  The fields the handlers read from \<open>req.body\<close> and \<open>req.file\<close>, at the types the
  handlers use them at; \<open>None\<close> is \<open>undefined\<close>. \<open>exif_data\<close> of an upload is what
  \<open>exifParser.create(file.buffer).parse()\<close> returns, \<open>None\<close> when it throws.
\<close>

record request =
  req_text :: "jsstring option"
  req_url :: "jsstring option"
  req_profileUrl :: "jsstring option"
  req_platform :: "jsstring option"
  req_userEmail :: "jsstring option"
  req_language :: "jsstring option"
  req_file :: "upload option"

text \<open>
  What the call of the external model does: it returns a response, whose \<open>text\<close> may
  be undefined, or it throws.
\<close>

datatype model_outcome = Returned "jsstring option" | Threw js_error

text \<open>
  Everything a handler takes from outside the request: the outcome of the model call, the
  clock of the storage, the text of \<open>(Math.random() * 0.3 + 0.55).toFixed(2)\<close>, and
  three things the JavaScript engine decides: the \<open>SyntaxError\<close> that \<open>JSON.parse\<close>
  throws on a text, the \<open>TypeError\<close> of a property access on a value that has no
  properties, and the number that \<open>ToNumber\<close> makes of a string, an array or an object.
\<close>

record env =
  outcome :: model_outcome
  now :: nat
  random_score :: jsstring
  syntax_error :: "jsstring \<Rightarrow> js_error"
  type_error :: "json \<Rightarrow> jsstring \<Rightarrow> js_error"
  to_number :: "json \<Rightarrow> json"

text \<open>
  The reply of a handler: the status and the body it sends, and the statement that sent
  it: the guard on the required field (\<open>Guard\<close>), the last statement of the \<open>try\<close>
  block (\<open>Try\<close>), the quota branch of the \<open>catch\<close> block (\<open>Quota\<close>) or its last
  line (\<open>Failure\<close>). The body is the value handed to \<open>res.json\<close>, whose serialisation
  is sent.
\<close>

datatype site = Guard | Try | Quota | Failure

record reply =
  sent_by :: site
  http_status :: nat
  body :: json


definition or_else :: "jsstring option \<Rightarrow> jsstring \<Rightarrow> jsstring" where
  "or_else s d = (case s of None \<Rightarrow> d | Some x \<Rightarrow> if x = [] then d else x)"

definition error_body :: "jsstring \<Rightarrow> json" where
  "error_body m = JObj [(js ''error'', JStr m)]"

text \<open>
  \<open>v.key\<close> for a key that is no built-in property: \<open>undefined\<close> (\<open>None\<close>) on
  everything but an object that has the key, a \<open>TypeError\<close> on \<open>null\<close>.
\<close>

definition get_prop :: "env \<Rightarrow> json \<Rightarrow> jsstring \<Rightarrow> js_error + json option" where
  "get_prop e v k =
     (case v of
        JNull \<Rightarrow> Inl (type_error e v k)
      | JObj kvs \<Rightarrow> Inr (map_of kvs k)
      | _ \<Rightarrow> Inr None)"

text \<open>
  \<open>v.key = x\<close> in a module (strict mode), as the response shows it: an object gets or
  updates the property, an array keeps its elements (the property is not serialised),
  \<open>null\<close> and the primitive values throw a \<open>TypeError\<close>.
\<close>

definition set_prop :: "env \<Rightarrow> json \<Rightarrow> jsstring \<Rightarrow> json \<Rightarrow> js_error + json" where
  "set_prop e v k x =
     (case v of
        JObj kvs \<Rightarrow> Inr (JObj (AList.update k x kvs))
      | JArr xs \<Rightarrow> Inr (JArr xs)
      | _ \<Rightarrow> Inl (type_error e v k))"

text \<open>\<open>v != null\<close> on the value of a property.\<close>

definition not_nullish :: "json option \<Rightarrow> bool" where
  "not_nullish v \<longleftrightarrow> v \<noteq> None \<and> v \<noteq> Some JNull"

text \<open>\<open>ToNumber(v)\<close>: a number is itself, \<open>null\<close> is 0, \<open>true\<close> is 1 and \<open>false\<close> is 0.\<close>

definition to_numeric :: "env \<Rightarrow> json \<Rightarrow> json" where
  "to_numeric e v =
     (case v of
        JNum n \<Rightarrow> v
      | JInf neg \<Rightarrow> v
      | JNaN \<Rightarrow> v
      | JNull \<Rightarrow> JNum 0
      | JBool b \<Rightarrow> JNum (if b then 1 else 0)
      | _ \<Rightarrow> to_number e v)"

text \<open>
  \<open>100 - v\<close> in doubles: the exact difference rounded for a finite \<open>v\<close>, the opposite
  infinity for an infinite one, \<open>NaN\<close> for \<open>NaN\<close>.
\<close>

definition minus_from_100 :: "env \<Rightarrow> json \<Rightarrow> json" where
  "minus_from_100 e v =
     (case to_numeric e v of
        JNum n \<Rightarrow> number_of (100 - n)
      | JInf neg \<Rightarrow> JInf (\<not> neg)
      | _ \<Rightarrow> JNaN)"

text \<open>
  The backfill of the production server (part 000, lines 107 to 109 and the same three
  lines of its image, video and link handlers):
  \<^verbatim>\<open>if (result.aiProbability != null && result.humanProbability == null) {
    result.humanProbability = 100 - result.aiProbability; }\<close>
\<close>

definition backfill :: "env \<Rightarrow> json \<Rightarrow> js_error + json" where
  "backfill e res =
     (case get_prop e res (js ''aiProbability'') of
        Inl err \<Rightarrow> Inl err
      | Inr a \<Rightarrow>
          if not_nullish a then
            (case get_prop e res (js ''humanProbability'') of
               Inl err \<Rightarrow> Inl err
             | Inr h \<Rightarrow>
                 if not_nullish h then Inr res
                 else set_prop e res (js ''humanProbability'') (minus_from_100 e (the a)))
          else Inr res)"

section \<open>The mock results\<close>

text \<open>\<open>mockTextResult\<close> of the development server (server.ts, lines 42 to 58). \<open>score\<close> is the text of
  \<open>(Math.random() * 0.3 + 0.55).toFixed(2)\<close>, drawn once per call.\<close>

definition mockTextResult_dev :: "jsstring \<Rightarrow> jsstring \<Rightarrow> json" where
  "mockTextResult_dev score txt =
     JObj
        [(js ''aiProbability'', JNum (if length txt > 300 then 72 else 34)),
         (js ''humanProbability'', JNum (if length txt > 300 then 28 else 66)),
         (js ''confidence'', JStr (js ''Medium'')),
         (js ''explanation'', JStr (js ''**'' @ [0x26A0, 0xFE0F] @
              js '' Demo Mode** (API quota reset pending)'' @ [0xA, 0xA] @
              js ''Based on linguistic pattern analysis of the provided '' @
              nat_to_string (split_length 0x20 txt) @ js ''-word text:'' @
              [0xA, 0xA] @
              js ''- **Structural uniformity** detected across paragraph transitions'' @
              [0xA] @
              js ''- **Hedging language** appears at above-average frequency'' @
              [0xA] @ js ''- **Vocabulary diversity** score: '' @ score @ [0xA, 0xA] @
              js ''This analysis is a demonstration. Full AI-powered detection resumes '' @
              js ''when the API quota resets.'')),
         (js ''plagiarism'', JObj
          [(js ''isPlagiarized'', JBool False),
           (js ''sources'', JArr []),
           (js ''score'', JNum 12)]),
         (js ''credibility'', JObj
          [(js ''rating'', JStr (js ''Unverified'')),
           (js ''reason'', JStr (js ''No source URL provided for cross-referencing.''))]),
         (js ''comparison'', JObj
          [(js ''humanTraits'', JStr (js ''Personal anecdotes, emotional language, irregular sentence lengths, '' @
                js ''unique perspective.'')),
           (js ''detectedTraits'', JStr (js ''Consistent sentence structure, formal transitions, lack of personal '' @
                js ''voice, systematic paragraph flow.''))]),
         (js ''suspiciousSections'', (if length txt > 200
          then JArr [JObj
                  [(js ''text'', JStr (split_first 0x2E txt @ js ''.'')),
                   (js ''reason'', JStr (js ''Opening sentence follows a common AI pattern: declarative statement '' @
                        js ''without personal context.'')),
                   (js ''severity'', JStr (js ''Medium''))]]
          else JArr []))]"

text \<open>\<open>mockImageResult\<close> of the development server (server.ts, lines 60 to 68).\<close>

definition mockImageResult_dev :: "json" where
  "mockImageResult_dev =
     JObj
        [(js ''aiProbability'', JNum 41),
         (js ''humanProbability'', JNum 59),
         (js ''confidence'', JStr (js ''Medium'')),
         (js ''explanation'', JStr (js ''**'' @ [0x26A0, 0xFE0F] @
              js '' Demo Mode** (API quota reset pending)'' @ [0xA, 0xA] @
              js ''Visual forensic analysis detected:'' @ [0xA] @
              js ''- Natural noise patterns consistent with camera sensor'' @ [0xA] @
              js ''- No obvious splicing artifacts at major edges'' @ [0xA] @
              js ''- Lighting direction appears consistent'' @ [0xA, 0xA] @
              js ''Full AI-powered image analysis resumes when the API quota resets.'')),
         (js ''watermarkDetected'', JBool False),
         (js ''manipulatedRegions'', JArr []),
         (js ''reverseSearch'', JObj
          [(js ''found'', JBool False),
           (js ''similarSources'', JArr [])])]"

text \<open>\<open>mockVideoResult\<close> of the development server (server.ts, lines 70 to 76).\<close>

definition mockVideoResult_dev :: "json" where
  "mockVideoResult_dev =
     JObj
        [(js ''aiProbability'', JNum 18),
         (js ''humanProbability'', JNum 82),
         (js ''confidence'', JStr (js ''Low'')),
         (js ''explanation'', JStr (js ''**'' @ [0x26A0, 0xFE0F] @
              js '' Demo Mode** (API quota reset pending)'' @ [0xA, 0xA] @
              js ''Deepfake forensic scan queued. Full video analysis with facial '' @
              js ''landmark tracking, temporal consistency checks, and audio-visual '' @
              js ''sync analysis will run when API quota resets.'')),
         (js ''deepfakeSigns'', JArr [JStr (js ''Demo mode '' @ [0x2014] @
                    js '' real analysis pending quota reset'')])]"

text \<open>\<open>mockLinkResult\<close> of the development server (server.ts, lines 78 to 85).\<close>

definition mockLinkResult_dev :: "json" where
  "mockLinkResult_dev =
     JObj
        [(js ''aiProbability'', JNum 55),
         (js ''humanProbability'', JNum 45),
         (js ''confidence'', JStr (js ''Low'')),
         (js ''explanation'', JStr (js ''**'' @ [0x26A0, 0xFE0F] @
              js '' Demo Mode** (API quota reset pending)'' @ [0xA, 0xA] @
              js ''URL content could not be fully analyzed. Real-time link verification '' @
              js ''with Google Search grounding will resume when API quota resets.'')),
         (js ''sourceRating'', JStr (js ''Unverified'')),
         (js ''isFake'', JBool False)]"

text \<open>\<open>mockProfileResult\<close> of the development server (server.ts, lines 87 to 93).\<close>

definition mockProfileResult_dev :: "json" where
  "mockProfileResult_dev =
     JObj
        [(js ''isAIInfluencer'', JBool False),
         (js ''botProbability'', JNum 38),
         (js ''humanProbability'', JNum 62),
         (js ''explanation'', JStr (js ''**'' @ [0x26A0, 0xFE0F] @
              js '' Demo Mode** (API quota reset pending)'' @ [0xA, 0xA] @
              js ''Profile signals suggest moderate bot probability based on URL '' @
              js ''pattern analysis. Full behavioral analysis will resume when API '' @
              js ''quota resets.'')),
         (js ''redFlags'', JArr [JStr (js ''Unable to complete full analysis '' @ [0x2014] @
                    js '' API quota limit reached''),
              JStr (js ''Please retry after quota resets ('' @ [0x7E] @
                    js ''6:30 AM IST)'')])]"

text \<open>\<open>mockTextResult\<close> of the production server (part 000, lines 46 to 55).\<close>

definition mockTextResult_prod :: "jsstring \<Rightarrow> json" where
  "mockTextResult_prod txt =
     JObj
        [(js ''aiProbability'', JNum (if length txt > 300 then 72 else 34)),
         (js ''humanProbability'', JNum (if length txt > 300 then 28 else 66)),
         (js ''confidence'', JStr (js ''Medium'')),
         (js ''explanation'', JStr (js ''**'' @ [0x26A0, 0xFE0F] @
              js '' Demo Mode** (API quota reset pending)'' @ [0xA, 0xA] @
              js ''Based on linguistic pattern analysis of the '' @
              nat_to_string (split_length 0x20 txt) @
              js ''-word text, structural uniformity and hedging language appear '' @
              js ''at above-average frequency. This is a demonstration; full AI-powered '' @
              js ''detection resumes when the quota resets.'')),
         (js ''plagiarism'', JObj
          [(js ''isPlagiarized'', JBool False),
           (js ''sources'', JArr []),
           (js ''score'', JNum 12)]),
         (js ''credibility'', JObj
          [(js ''rating'', JStr (js ''Unverified'')),
           (js ''reason'', JStr (js ''No source URL provided.''))]),
         (js ''comparison'', JObj
          [(js ''humanTraits'', JStr (js ''Personal anecdotes, irregular sentence lengths.'')),
           (js ''detectedTraits'', JStr (js ''Consistent structure, formal transitions.''))]),
         (js ''suspiciousSections'', JArr [])]"

text \<open>\<open>mockImageResult\<close> of the production server (part 000, lines 57 to 61).\<close>

definition mockImageResult_prod :: "json" where
  "mockImageResult_prod =
     JObj
        [(js ''aiProbability'', JNum 41),
         (js ''humanProbability'', JNum 59),
         (js ''confidence'', JStr (js ''Medium'')),
         (js ''explanation'', JStr (js ''**'' @ [0x26A0, 0xFE0F] @ js '' Demo Mode** '' @ [0x2014] @
              js '' API quota pending. Full forensic image analysis will resume '' @
              js ''when quota resets.'')),
         (js ''watermarkDetected'', JBool False),
         (js ''manipulatedRegions'', JArr []),
         (js ''reverseSearch'', JObj
          [(js ''found'', JBool False),
           (js ''similarSources'', JArr [])])]"

text \<open>\<open>mockVideoResult\<close> of the production server (part 000, lines 63 to 67).\<close>

definition mockVideoResult_prod :: "json" where
  "mockVideoResult_prod =
     JObj
        [(js ''aiProbability'', JNum 18),
         (js ''humanProbability'', JNum 82),
         (js ''confidence'', JStr (js ''Low'')),
         (js ''explanation'', JStr (js ''**'' @ [0x26A0, 0xFE0F] @ js '' Demo Mode** '' @ [0x2014] @
              js '' Full deepfake video analysis pending quota reset.'')),
         (js ''deepfakeSigns'', JArr [JStr (js ''Demo mode '' @ [0x2014] @
                    js '' real analysis pending quota reset'')])]"

text \<open>\<open>mockLinkResult\<close> of the production server (part 000, lines 69 to 73).\<close>

definition mockLinkResult_prod :: "json" where
  "mockLinkResult_prod =
     JObj
        [(js ''aiProbability'', JNum 55),
         (js ''humanProbability'', JNum 45),
         (js ''confidence'', JStr (js ''Low'')),
         (js ''explanation'', JStr (js ''**'' @ [0x26A0, 0xFE0F] @ js '' Demo Mode** '' @ [0x2014] @
              js '' URL verification pending quota reset.'')),
         (js ''sourceRating'', JStr (js ''Unverified'')),
         (js ''isFake'', JBool False)]"

text \<open>\<open>mockProfileResult\<close> of the production server (part 000, lines 75 to 79).\<close>

definition mockProfileResult_prod :: "json" where
  "mockProfileResult_prod =
     JObj
        [(js ''isAIInfluencer'', JBool False),
         (js ''botProbability'', JNum 38),
         (js ''humanProbability'', JNum 62),
         (js ''explanation'', JStr (js ''**'' @ [0x26A0, 0xFE0F] @ js '' Demo Mode** '' @ [0x2014] @
              js '' Profile analysis pending quota reset.'')),
         (js ''redFlags'', JArr [JStr (js ''API quota limit reached'')])]"

text \<open>\<open>mockTextResult\<close> of the serverless handler (part 001, lines 28 to 36).\<close>

definition mockTextResult_sl :: "jsstring \<Rightarrow> json" where
  "mockTextResult_sl txt =
     JObj
        [(js ''aiProbability'', JNum (if length txt > 300 then 72 else 34)),
         (js ''humanProbability'', JNum (if length txt > 300 then 28 else 66)),
         (js ''confidence'', JStr (js ''Medium'')),
         (js ''explanation'', JStr (js ''**'' @ [0x26A0, 0xFE0F] @
              js '' Demo Mode** (API quota reset pending)'' @ [0xA, 0xA] @
              js ''Based on linguistic pattern analysis of the provided '' @
              nat_to_string (split_length 0x20 txt) @ js ''-word text:'' @
              [0xA, 0xA] @
              js ''- **Structural uniformity** detected across paragraph transitions'' @
              [0xA] @
              js ''- **Hedging language** appears at above-average frequency'' @
              [0xA, 0xA] @
              js ''Full AI-powered detection resumes when the API quota resets.'')),
         (js ''plagiarism'', JObj
          [(js ''isPlagiarized'', JBool False),
           (js ''sources'', JArr []),
           (js ''score'', JNum 12)]),
         (js ''credibility'', JObj
          [(js ''rating'', JStr (js ''Unverified'')),
           (js ''reason'', JStr (js ''No source URL provided for cross-referencing.''))]),
         (js ''comparison'', JObj
          [(js ''humanTraits'', JStr (js ''Personal anecdotes, emotional language, irregular sentence lengths.'')),
           (js ''detectedTraits'', JStr (js ''Consistent sentence structure, formal transitions, lack of personal '' @
                js ''voice.''))]),
         (js ''suspiciousSections'', JArr [JObj
                [(js ''text'', JStr (take 80 txt)),
                 (js ''reason'', JStr (js ''Overly formal sentence structure with uniform pacing.'')),
                 (js ''severity'', JStr (js ''Medium''))]])]"

text \<open>\<open>mockImageResult\<close> of the serverless handler (part 001, lines 38 to 44).\<close>

definition mockImageResult_sl :: "json" where
  "mockImageResult_sl =
     JObj
        [(js ''aiProbability'', JNum 41),
         (js ''humanProbability'', JNum 59),
         (js ''confidence'', JStr (js ''Medium'')),
         (js ''explanation'', JStr (js ''**'' @ [0x26A0, 0xFE0F] @
              js '' Demo Mode** (API quota reset pending)'' @ [0xA, 0xA] @
              js ''Visual forensic analysis detected:'' @ [0xA, 0xA] @
              js ''- Natural noise patterns consistent with camera sensor'' @ [0xA] @
              js ''- No obvious splicing artifacts at major edges'' @ [0xA] @
              js ''- Lighting direction appears consistent'' @ [0xA, 0xA] @
              js ''Full AI-powered image analysis resumes when the API quota resets.'')),
         (js ''watermarkDetected'', JBool False),
         (js ''manipulatedRegions'', JArr [JObj
                [(js ''region'', JStr (js ''Background'')),
                 (js ''issue'', JStr (js ''Slight compression artifact detected'')),
                 (js ''severity'', JStr (js ''Low''))]]),
         (js ''reverseSearch'', JObj
          [(js ''found'', JBool False),
           (js ''similarSources'', JArr [])])]"

text \<open>The object literal of the video handler's quota branch in the serverless handler
  (part 001, line 146).\<close>

definition mockVideoResult_sl :: "json" where
  "mockVideoResult_sl =
     JObj
        [(js ''aiProbability'', JNum 55),
         (js ''humanProbability'', JNum 45),
         (js ''confidence'', JStr (js ''Medium'')),
         (js ''explanation'', JStr (js ''**'' @ [0x26A0, 0xFE0F] @
              js '' Demo Mode** - Video analysis unavailable during quota limit.'')),
         (js ''deepfakeSigns'', JArr [JStr (js ''Quota limit reached '' @ [0x2014] @
                    js '' demo mode active'')])]"

text \<open>The object literal of the link handler's quota branch in the serverless handler
  (part 001, line 178).\<close>

definition mockLinkResult_sl :: "json" where
  "mockLinkResult_sl =
     JObj
        [(js ''aiProbability'', JNum 40),
         (js ''humanProbability'', JNum 60),
         (js ''confidence'', JStr (js ''Medium'')),
         (js ''explanation'', JStr (js ''**'' @ [0x26A0, 0xFE0F] @ js '' Demo Mode**'')),
         (js ''credibilityRating'', JStr (js ''Unverified'')),
         (js ''isFake'', JBool False),
         (js ''redFlags'', JArr [JStr (js ''Quota limit reached'')])]"

text \<open>The object literal of the profile handler's quota branch in the serverless handler
  (part 001, line 210).\<close>

definition mockProfileResult_sl :: "json" where
  "mockProfileResult_sl =
     JObj
        [(js ''aiProbability'', JNum 35),
         (js ''humanProbability'', JNum 65),
         (js ''confidence'', JStr (js ''Medium'')),
         (js ''explanation'', JStr (js ''**'' @ [0x26A0, 0xFE0F] @ js '' Demo Mode**'')),
         (js ''botProbability'', JNum 22),
         (js ''isAIInfluencer'', JBool False),
         (js ''redFlags'', JArr [JStr (js ''Quota limit reached'')])]"

section \<open>The request handlers\<close>

text \<open>
  A handler takes the environment, the request and the table, and gives its reply and
  the table afterwards. Its \<open>try\<close> block is the inner \<open>case\<close>: \<open>Inl\<close> is an error
  thrown there, which the \<open>catch\<close> block below it receives. The prompt is built from
  the request and handed to the external model, whose outcome the environment gives; no
  handler looks at the prompt again.
\<close>

definition bad_request :: "jsstring \<Rightarrow> db \<Rightarrow> reply \<times> db" where
  "bad_request m d = (\<lparr>sent_by = Guard, http_status = 400, body = error_body m\<rparr>, d)"

definition live :: "json \<Rightarrow> reply" where
  "live res = \<lparr>sent_by = Try, http_status = 200, body = res\<rparr>"

definition fallback :: "json \<Rightarrow> reply" where
  "fallback mock = \<lparr>sent_by = Quota, http_status = 200, body = mock\<rparr>"

definition server_error :: "js_error \<Rightarrow> db \<Rightarrow> reply \<times> db" where
  "server_error err d =
     (\<lparr>sent_by = Failure, http_status = 500, body = error_body (message err)\<rparr>, d)"

subsection \<open>The development server (server.ts)\<close>

text \<open>\<open>POST /api/analyze/text\<close> (server.ts, lines 97 to 182).\<close>

definition analyze_text_dev :: "env \<Rightarrow> request \<Rightarrow> db \<Rightarrow> reply \<times> db" where
  "analyze_text_dev e req d =
     (case req_text req of
        None \<Rightarrow> bad_request (js ''Text is required'') d
      | Some txt \<Rightarrow>
          if txt = [] then bad_request (js ''Text is required'') d
          else
          (let email = or_else (req_userEmail req) (js ''anonymous'')
           in case (case outcome e of
                      Threw err \<Rightarrow> Inl err
                    | Returned rt \<Rightarrow>
                        (case JSON_parse (or_else rt [0x7B, 0x7D]) of
                           None \<Rightarrow> Inl (syntax_error e (or_else rt [0x7B, 0x7D]))
                         | Some res \<Rightarrow>
                             Inr (live res,
                                  insert_history (now e) email (js ''text'') (take 500 txt) res d)))
              of
                Inr done \<Rightarrow> done
              | Inl err \<Rightarrow>
                  if isQuotaError err then 
                    (fallback (mockTextResult_dev (random_score e) txt),
                     insert_history (now e) email (js ''text'') (take 500 txt)
                       (mockTextResult_dev (random_score e) txt) d)
                  else server_error err d))"

text \<open>\<open>POST /api/analyze/image\<close> (server.ts, lines 184 to 305).\<close>

definition analyze_image_dev :: "env \<Rightarrow> request \<Rightarrow> db \<Rightarrow> reply \<times> db" where
  "analyze_image_dev e req d =
     (case req_file req of
        None \<Rightarrow> bad_request (js ''Image is required'') d
      | Some file \<Rightarrow>
          (let exifData = (case exif_data file of None \<Rightarrow> JObj [] | Some x \<Rightarrow> x);
               email = or_else (req_userEmail req) (js ''anonymous'')
           in case (case outcome e of
                      Threw err \<Rightarrow> Inl err
                    | Returned rt \<Rightarrow>
                        (case JSON_parse (or_else rt [0x7B, 0x7D]) of
                           None \<Rightarrow> Inl (syntax_error e (or_else rt [0x7B, 0x7D]))
                         | Some res \<Rightarrow>
                             (case set_prop e res (js ''exif'') exifData of
                                Inl err \<Rightarrow> Inl err
                              | Inr res' \<Rightarrow>
                                  Inr (live res',
                                       insert_history (now e) email (js ''image'') (js ''Image: '' @ originalname file) res' d))))
              of
                Inr done \<Rightarrow> done
              | Inl err \<Rightarrow>
                  if isQuotaError err then 
                    (fallback mockImageResult_dev,
                     insert_history (now e) email (js ''image'') (js ''Image: '' @ originalname file)
                       mockImageResult_dev d)
                  else server_error err d))"

text \<open>\<open>POST /api/analyze/video\<close> (server.ts, lines 307 to 347).\<close>

definition analyze_video_dev :: "env \<Rightarrow> request \<Rightarrow> db \<Rightarrow> reply \<times> db" where
  "analyze_video_dev e req d =
     (case req_file req of
        None \<Rightarrow> bad_request (js ''Video is required'') d
      | Some file \<Rightarrow>
          (let email = or_else (req_userEmail req) (js ''anonymous'')
           in case (case outcome e of
                      Threw err \<Rightarrow> Inl err
                    | Returned rt \<Rightarrow>
                        (case JSON_parse (or_else rt [0x7B, 0x7D]) of
                           None \<Rightarrow> Inl (syntax_error e (or_else rt [0x7B, 0x7D]))
                         | Some res \<Rightarrow>
                             Inr (live res,
                                  insert_history (now e) email (js ''video'') (js ''Video: '' @ originalname file) res d)))
              of
                Inr done \<Rightarrow> done
              | Inl err \<Rightarrow>
                  if isQuotaError err then (fallback mockVideoResult_dev, d)
                  else server_error err d))"

text \<open>\<open>POST /api/analyze/link\<close> (server.ts, lines 349 to 385).\<close>

definition analyze_link_dev :: "env \<Rightarrow> request \<Rightarrow> db \<Rightarrow> reply \<times> db" where
  "analyze_link_dev e req d =
     (case req_url req of
        None \<Rightarrow> bad_request (js ''URL is required'') d
      | Some url \<Rightarrow>
          if url = [] then bad_request (js ''URL is required'') d
          else
          (let email = or_else (req_userEmail req) (js ''anonymous'')
           in case (case outcome e of
                      Threw err \<Rightarrow> Inl err
                    | Returned rt \<Rightarrow>
                        (case JSON_parse (or_else rt [0x7B, 0x7D]) of
                           None \<Rightarrow> Inl (syntax_error e (or_else rt [0x7B, 0x7D]))
                         | Some res \<Rightarrow>
                             Inr (live res,
                                  insert_history (now e) email (js ''link'') url res d)))
              of
                Inr done \<Rightarrow> done
              | Inl err \<Rightarrow>
                  if isQuotaError err then (fallback mockLinkResult_dev, d)
                  else server_error err d))"

text \<open>\<open>POST /api/analyze/profile\<close> (server.ts, lines 387 to 421).\<close>

definition analyze_profile_dev :: "env \<Rightarrow> request \<Rightarrow> db \<Rightarrow> reply \<times> db" where
  "analyze_profile_dev e req d =
     (case req_profileUrl req of
        None \<Rightarrow> bad_request (js ''Profile URL is required'') d
      | Some profileUrl \<Rightarrow>
          if profileUrl = [] then bad_request (js ''Profile URL is required'') d
          else
          (let email = or_else (req_userEmail req) (js ''anonymous'')
           in case (case outcome e of
                      Threw err \<Rightarrow> Inl err
                    | Returned rt \<Rightarrow>
                        (case JSON_parse (or_else rt [0x7B, 0x7D]) of
                           None \<Rightarrow> Inl (syntax_error e (or_else rt [0x7B, 0x7D]))
                         | Some res \<Rightarrow>
                             Inr (live res,
                                  insert_history (now e) email (js ''profile'') profileUrl res d)))
              of
                Inr done \<Rightarrow> done
              | Inl err \<Rightarrow>
                  if isQuotaError err then (fallback mockProfileResult_dev, d)
                  else server_error err d))"

subsection \<open>The production server (part 000)\<close>

text \<open>\<open>POST /api/analyze/text\<close> (part 000, lines 83 to 118).\<close>

definition analyze_text_prod :: "env \<Rightarrow> request \<Rightarrow> db \<Rightarrow> reply \<times> db" where
  "analyze_text_prod e req d =
     (case req_text req of
        None \<Rightarrow> bad_request (js ''Text is required'') d
      | Some txt \<Rightarrow>
          if txt = [] then bad_request (js ''Text is required'') d
          else
          (let email = or_else (req_userEmail req) (js ''anonymous'')
           in case (case outcome e of
                      Threw err \<Rightarrow> Inl err
                    | Returned rt \<Rightarrow>
                        (case backfill e (parseJSON (or_else rt [])) of
                           Inl err \<Rightarrow> Inl err
                         | Inr res \<Rightarrow>
                             Inr (live res,
                                  insert_history (now e) email (js ''text'') (take 500 txt) res d)))
              of
                Inr done \<Rightarrow> done
              | Inl err \<Rightarrow>
                  if isQuotaError err then (fallback (mockTextResult_prod txt), d)
                  else server_error err d))"

text \<open>\<open>POST /api/analyze/image\<close> (part 000, lines 121 to 173).\<close>

definition analyze_image_prod :: "env \<Rightarrow> request \<Rightarrow> db \<Rightarrow> reply \<times> db" where
  "analyze_image_prod e req d =
     (case req_file req of
        None \<Rightarrow> bad_request (js ''Image is required'') d
      | Some file \<Rightarrow>
          (let exifData = (case exif_data file of None \<Rightarrow> JObj [] | Some x \<Rightarrow> x);
               email = or_else (req_userEmail req) (js ''anonymous'')
           in case (case outcome e of
                      Threw err \<Rightarrow> Inl err
                    | Returned rt \<Rightarrow>
                        (case backfill e (parseJSON (or_else rt [])) of
                           Inl err \<Rightarrow> Inl err
                         | Inr res \<Rightarrow>
                             (case set_prop e res (js ''exif'') exifData of
                                Inl err \<Rightarrow> Inl err
                              | Inr res' \<Rightarrow>
                                  Inr (live res',
                                       insert_history (now e) email (js ''image'') (js ''Image: '' @
                   (if originalname file = [] then js ''upload'' else originalname file)) res' d))))
              of
                Inr done \<Rightarrow> done
              | Inl err \<Rightarrow>
                  if isQuotaError err then (fallback mockImageResult_prod, d)
                  else server_error err d))"

text \<open>\<open>POST /api/analyze/video\<close> (part 000, lines 176 to 213).\<close>

definition analyze_video_prod :: "env \<Rightarrow> request \<Rightarrow> db \<Rightarrow> reply \<times> db" where
  "analyze_video_prod e req d =
     (case req_file req of
        None \<Rightarrow> bad_request (js ''Video is required'') d
      | Some file \<Rightarrow>
          (let email = or_else (req_userEmail req) (js ''anonymous'')
           in case (case outcome e of
                      Threw err \<Rightarrow> Inl err
                    | Returned rt \<Rightarrow>
                        (case backfill e (parseJSON (or_else rt [])) of
                           Inl err \<Rightarrow> Inl err
                         | Inr res \<Rightarrow>
                             Inr (live res,
                                  insert_history (now e) email (js ''video'') (js ''Video: '' @ originalname file) res d)))
              of
                Inr done \<Rightarrow> done
              | Inl err \<Rightarrow>
                  if isQuotaError err then (fallback mockVideoResult_prod, d)
                  else server_error err d))"

text \<open>\<open>POST /api/analyze/link\<close> (part 000, lines 216 to 246).\<close>

definition analyze_link_prod :: "env \<Rightarrow> request \<Rightarrow> db \<Rightarrow> reply \<times> db" where
  "analyze_link_prod e req d =
     (case req_url req of
        None \<Rightarrow> bad_request (js ''URL is required'') d
      | Some url \<Rightarrow>
          if url = [] then bad_request (js ''URL is required'') d
          else
          (let email = or_else (req_userEmail req) (js ''anonymous'')
           in case (case outcome e of
                      Threw err \<Rightarrow> Inl err
                    | Returned rt \<Rightarrow>
                        (case backfill e (parseJSON (or_else rt [])) of
                           Inl err \<Rightarrow> Inl err
                         | Inr res \<Rightarrow>
                             Inr (live res,
                                  insert_history (now e) email (js ''link'') url res d)))
              of
                Inr done \<Rightarrow> done
              | Inl err \<Rightarrow>
                  if isQuotaError err then (fallback mockLinkResult_prod, d)
                  else server_error err d))"

text \<open>\<open>POST /api/analyze/profile\<close> (part 000, lines 249 to 275), which has no backfill.\<close>

definition analyze_profile_prod :: "env \<Rightarrow> request \<Rightarrow> db \<Rightarrow> reply \<times> db" where
  "analyze_profile_prod e req d =
     (case req_profileUrl req of
        None \<Rightarrow> bad_request (js ''Profile URL is required'') d
      | Some profileUrl \<Rightarrow>
          if profileUrl = [] then bad_request (js ''Profile URL is required'') d
          else
          (let email = or_else (req_userEmail req) (js ''anonymous'')
           in case (case outcome e of
                      Threw err \<Rightarrow> Inl err
                    | Returned rt \<Rightarrow>
                        Inr (live (parseJSON (or_else rt [])),
                             insert_history (now e) email (js ''profile'') profileUrl (parseJSON (or_else rt [])) d))
              of
                Inr done \<Rightarrow> done
              | Inl err \<Rightarrow>
                  if isQuotaError err then (fallback mockProfileResult_prod, d)
                  else server_error err d))"

subsection \<open>The serverless handler (part 001)\<close>

text \<open>\<open>POST /api/analyze/text\<close> (part 001, lines 47 to 78).\<close>

definition analyze_text_sl :: "env \<Rightarrow> request \<Rightarrow> db \<Rightarrow> reply \<times> db" where
  "analyze_text_sl e req d =
     (case req_text req of
        None \<Rightarrow> bad_request (js ''Text is required'') d
      | Some txt \<Rightarrow>
          if txt = [] then bad_request (js ''Text is required'') d
          else
          (let email = or_else (req_userEmail req) (js ''anonymous'')
           in case (case outcome e of
                      Threw err \<Rightarrow> Inl err
                    | Returned rt \<Rightarrow>
                        (case JSON_parse (or_else rt [0x7B, 0x7D]) of
                           None \<Rightarrow> Inl (syntax_error e (or_else rt [0x7B, 0x7D]))
                         | Some res \<Rightarrow>
                             Inr (live res,
                                  insert_history (now e) email (js ''text'') (take 500 txt) res d)))
              of
                Inr done \<Rightarrow> done
              | Inl err \<Rightarrow>
                  if isQuotaError err then (fallback (mockTextResult_sl txt), d)
                  else server_error err d))"

text \<open>\<open>POST /api/analyze/image\<close> (part 001, lines 81 to 116).\<close>

definition analyze_image_sl :: "env \<Rightarrow> request \<Rightarrow> db \<Rightarrow> reply \<times> db" where
  "analyze_image_sl e req d =
     (case req_file req of
        None \<Rightarrow> bad_request (js ''Image is required'') d
      | Some file \<Rightarrow>
          (let exifData = (case exif_data file of None \<Rightarrow> JObj [] | Some x \<Rightarrow> x);
               email = or_else (req_userEmail req) (js ''anonymous'')
           in case (case outcome e of
                      Threw err \<Rightarrow> Inl err
                    | Returned rt \<Rightarrow>
                        (case JSON_parse (or_else rt [0x7B, 0x7D]) of
                           None \<Rightarrow> Inl (syntax_error e (or_else rt [0x7B, 0x7D]))
                         | Some res \<Rightarrow>
                             (case set_prop e res (js ''exif'') exifData of
                                Inl err \<Rightarrow> Inl err
                              | Inr res' \<Rightarrow>
                                  Inr (live res',
                                       insert_history (now e) email (js ''image'') (js ''Image: '' @ originalname file) res' d))))
              of
                Inr done \<Rightarrow> done
              | Inl err \<Rightarrow>
                  if isQuotaError err then (fallback mockImageResult_sl, d)
                  else server_error err d))"

text \<open>\<open>POST /api/analyze/video\<close> (part 001, lines 119 to 149).\<close>

definition analyze_video_sl :: "env \<Rightarrow> request \<Rightarrow> db \<Rightarrow> reply \<times> db" where
  "analyze_video_sl e req d =
     (case req_file req of
        None \<Rightarrow> bad_request (js ''Video is required'') d
      | Some file \<Rightarrow>
          (let email = or_else (req_userEmail req) (js ''anonymous'')
           in case (case outcome e of
                      Threw err \<Rightarrow> Inl err
                    | Returned rt \<Rightarrow>
                        (case JSON_parse (or_else rt [0x7B, 0x7D]) of
                           None \<Rightarrow> Inl (syntax_error e (or_else rt [0x7B, 0x7D]))
                         | Some res \<Rightarrow>
                             Inr (live res,
                                  insert_history (now e) email (js ''video'') (js ''Video: '' @ originalname file) res d)))
              of
                Inr done \<Rightarrow> done
              | Inl err \<Rightarrow>
                  if isQuotaError err then (fallback mockVideoResult_sl, d)
                  else server_error err d))"

text \<open>\<open>POST /api/analyze/link\<close> (part 001, lines 152 to 181).\<close>

definition analyze_link_sl :: "env \<Rightarrow> request \<Rightarrow> db \<Rightarrow> reply \<times> db" where
  "analyze_link_sl e req d =
     (case req_url req of
        None \<Rightarrow> bad_request (js ''URL is required'') d
      | Some url \<Rightarrow>
          if url = [] then bad_request (js ''URL is required'') d
          else
          (let email = or_else (req_userEmail req) (js ''anonymous'')
           in case (case outcome e of
                      Threw err \<Rightarrow> Inl err
                    | Returned rt \<Rightarrow>
                        (case JSON_parse (or_else rt [0x7B, 0x7D]) of
                           None \<Rightarrow> Inl (syntax_error e (or_else rt [0x7B, 0x7D]))
                         | Some res \<Rightarrow>
                             Inr (live res,
                                  insert_history (now e) email (js ''link'') url res d)))
              of
                Inr done \<Rightarrow> done
              | Inl err \<Rightarrow>
                  if isQuotaError err then (fallback mockLinkResult_sl, d)
                  else server_error err d))"

text \<open>\<open>POST /api/analyze/profile\<close> (part 001, lines 184 to 213), which reads the field \<open>url\<close>.\<close>

definition analyze_profile_sl :: "env \<Rightarrow> request \<Rightarrow> db \<Rightarrow> reply \<times> db" where
  "analyze_profile_sl e req d =
     (case req_url req of
        None \<Rightarrow> bad_request (js ''Profile URL is required'') d
      | Some url \<Rightarrow>
          if url = [] then bad_request (js ''Profile URL is required'') d
          else
          (let email = or_else (req_userEmail req) (js ''anonymous'')
           in case (case outcome e of
                      Threw err \<Rightarrow> Inl err
                    | Returned rt \<Rightarrow>
                        (case JSON_parse (or_else rt [0x7B, 0x7D]) of
                           None \<Rightarrow> Inl (syntax_error e (or_else rt [0x7B, 0x7D]))
                         | Some res \<Rightarrow>
                             Inr (live res,
                                  insert_history (now e) email (js ''profile'') url res d)))
              of
                Inr done \<Rightarrow> done
              | Inl err \<Rightarrow>
                  if isQuotaError err then (fallback mockProfileResult_sl, d)
                  else server_error err d))"

subsection \<open>The three servers as one system\<close>

datatype variant = Dev | Prod | Serverless

datatype endpoint = Text | Image | Video | Link | Profile

fun analyze :: "variant \<Rightarrow> endpoint \<Rightarrow> env \<Rightarrow> request \<Rightarrow> db \<Rightarrow> reply \<times> db" where
  "analyze Dev Text = analyze_text_dev"
| "analyze Dev Image = analyze_image_dev"
| "analyze Dev Video = analyze_video_dev"
| "analyze Dev Link = analyze_link_dev"
| "analyze Dev Profile = analyze_profile_dev"
| "analyze Prod Text = analyze_text_prod"
| "analyze Prod Image = analyze_image_prod"
| "analyze Prod Video = analyze_video_prod"
| "analyze Prod Link = analyze_link_prod"
| "analyze Prod Profile = analyze_profile_prod"
| "analyze Serverless Text = analyze_text_sl"
| "analyze Serverless Image = analyze_image_sl"
| "analyze Serverless Video = analyze_video_sl"
| "analyze Serverless Link = analyze_link_sl"
| "analyze Serverless Profile = analyze_profile_sl"


text \<open>
  \<open>GET /api/history\<close> (server.ts lines 468 to 473, part 000 lines 294 to 299, part 001
  lines 229 to 233): the rows of \<open>email || "anonymous"\<close>, at most \<open>history_limit\<close> of
  them.
\<close>

fun history_limit :: "variant \<Rightarrow> nat" where
  "history_limit Dev = 20"
| "history_limit Prod = 20"
| "history_limit Serverless = 50"

definition get_history :: "variant \<Rightarrow> jsstring option \<Rightarrow> db \<Rightarrow> row list" where
  "get_history v email d = select_history (history_limit v) (or_else email (js ''anonymous'')) d"

text \<open>
  The operations of a server on its table. The handlers of \<open>/api/chat\<close>,
  \<open>/api/generate\<close> and \<open>/api/compare\<close> contain no database statement; they are the
  operation \<open>Other\<close>.
\<close>

datatype operation = Analyze endpoint env request | History "jsstring option" | Other

fun step :: "variant \<Rightarrow> operation \<Rightarrow> db \<Rightarrow> db" where
  "step v (Analyze ep e req) d = snd (analyze v ep e req d)"
| "step v (History email) d = d"
| "step v Other d = d"
section \<open>The vocabulary of the properties\<close>



text \<open>Values for the examples: an engine, a request for each endpoint, two errors.\<close>

definition example_env :: "model_outcome \<Rightarrow> env" where
  "example_env out =
     \<lparr>outcome = out, now = 1700000000, random_score = js ''0.61'',
      syntax_error = (\<lambda>t. \<lparr>status = None, message = js ''Unexpected token in JSON''\<rparr>),
      type_error = (\<lambda>v k. \<lparr>status = None, message = js ''Cannot read properties of null''\<rparr>),
      to_number = (\<lambda>v. JNaN)\<rparr>"

definition example_request :: request where
  "example_request =
     \<lparr>req_text = Some (js ''The quick brown fox.''), req_url = Some (js ''https://example.org/a''),
      req_profileUrl = Some (js ''https://example.org/u''), req_platform = None,
      req_userEmail = Some (js ''ann@example.org''), req_language = None,
      req_file = Some \<lparr>originalname = js ''cat.jpg'', exif_data = None\<rparr>\<rparr>"

definition rate_limited :: js_error where
  "rate_limited = \<lparr>status = Some (JNum 429), message = js ''Too Many Requests''\<rparr>"


text \<open>
  The two probabilities of a result are numbers that sum to 100.
\<close>

definition probabilities_sum_to_100 :: "json \<Rightarrow> bool" where
  "probabilities_sum_to_100 b \<longleftrightarrow>
     (case b of
        JObj kvs \<Rightarrow>
          (case (map_of kvs (js ''aiProbability''), map_of kvs (js ''humanProbability'')) of
             (Some (JNum a), Some (JNum h)) \<Rightarrow> a + h = 100
           | _ \<Rightarrow> False)
      | _ \<Rightarrow> False)"

text \<open>The \<open>exif\<close> field of a result, if it has one.\<close>

definition exif_of :: "json \<Rightarrow> json option" where
  "exif_of b = (case b of JObj kvs \<Rightarrow> map_of kvs (js ''exif'') | _ \<Rightarrow> None)"

text \<open>The rows of a user in the table.\<close>

definition rows_of :: "jsstring \<Rightarrow> db \<Rightarrow> row list" where
  "rows_of x d = filter (\<lambda>r. user_email r = x) d"

text \<open>Payloads of the external model for the examples.\<close>

definition human_only :: jsstring where
  "human_only = [0x7B, 0x22] @ js ''humanProbability'' @ [0x22] @ js '':40'' @ [0x7D]"

definition ai_only :: jsstring where
  "ai_only = [0x7B, 0x22] @ js ''aiProbability'' @ [0x22] @ js '':30'' @ [0x7D]"

text \<open>A payload whose number is beyond the doubles: \<open>{"aiProbability":1e400}\<close>.\<close>

definition ai_overflowing :: jsstring where
  "ai_overflowing = [0x7B, 0x22] @ js ''aiProbability'' @ [0x22] @ js '':1e400'' @ [0x7D]"

definition example_table :: db where
  "example_table =
     [\<lparr>row_id = 1, user_email = js ''ann@example.org'', row_type = js ''text'',
        content = js ''first'', result = JObj [], created_at = 100\<rparr>,
      \<lparr>row_id = 2, user_email = js ''bob@example.org'', row_type = js ''link'',
        content = js ''https://example.org'', result = JObj [], created_at = 150\<rparr>,
      \<lparr>row_id = 3, user_email = js ''ann@example.org'', row_type = js ''text'',
        content = js ''second'', result = JObj [], created_at = 200\<rparr>]"

text \<open>
  What a server makes of the text of the model's response before it looks at the
  fields: the production server calls \<open>parseJSON(response.text || "")\<close>, the other two
  \<open>JSON.parse(response.text || "{}")\<close>, which may throw (\<open>None\<close>).
\<close>

fun payload :: "variant \<Rightarrow> jsstring option \<Rightarrow> json option" where
  "payload Prod rt = Some (parseJSON (or_else rt []))"
| "payload v rt = JSON_parse (or_else rt [0x7B, 0x7D])"

text \<open>
  A Markdown fence around a text: three backticks, an optional language tag, a line
  break, the text, a line break, three backticks. The tag is empty or \<open>json\<close> in
  either case of its letters.
\<close>

definition backticks :: jsstring where
  "backticks = [0x60, 0x60, 0x60]"

definition fence_wrap :: "jsstring \<Rightarrow> jsstring \<Rightarrow> jsstring" where
  "fence_wrap lang s = backticks @ lang @ [0x0A] @ s @ [0x0A] @ backticks"

definition json_tag :: "jsstring \<Rightarrow> bool" where
  "json_tag lang \<longleftrightarrow> lang = [] \<or> (length lang = 4 \<and> is_fence_json (backticks @ lang))"

text \<open>The text that \<open>parseJSON\<close> hands to its first \<open>JSON.parse\<close>.\<close>

definition stripped :: "jsstring \<Rightarrow> jsstring" where
  "stripped t = js_trim (strip_fences (strip_json_fences t))"

text \<open>A \<open>{\<close> with a \<open>}\<close> somewhere after it: what the regular expression of \<open>parseJSON\<close> matches.\<close>

definition object_pattern :: "jsstring \<Rightarrow> bool" where
  "object_pattern t \<longleftrightarrow> 0x7D \<in> set (dropWhile (\<lambda>c. c \<noteq> 0x7B) t)"

text \<open>
  The normalizer as the specification words it: a strict parse of the raw text; on
  failure the fences are stripped and the parse tried again; on failure the \<open>{...}\<close>
  substring is extracted and parsed; on failure the empty object.
\<close>

definition parseJSON_spec :: "jsstring \<Rightarrow> json" where
  "parseJSON_spec raw =
     (case JSON_parse raw of
        Some v \<Rightarrow> v
      | None \<Rightarrow>
          (case JSON_parse (stripped raw) of
             Some v \<Rightarrow> v
           | None \<Rightarrow>
               (case match_braces (stripped raw) of
                  None \<Rightarrow> JObj []
                | Some m \<Rightarrow> (case JSON_parse m of Some v \<Rightarrow> v | None \<Rightarrow> JObj []))))"

text \<open>The serialisation of \<open>{a: "```"}\<close>, and a text that is no JSON at all.\<close>

definition backtick_object :: jsstring where
  "backtick_object = [0x7B, 0x22] @ js ''a'' @ [0x22, 0x3A, 0x22] @ backticks @ [0x22, 0x7D]"

definition apology :: jsstring where
  "apology = js ''I cannot analyze this text.''"

text \<open>
  A text that may stand after a JSON value without changing how the value is read: it is
  empty or begins with a character that continues no number.
\<close>

definition follows :: "jsstring \<Rightarrow> bool" where
  "follows r \<longleftrightarrow>
     (case r of
        [] \<Rightarrow> True
      | c # _ \<Rightarrow> \<not> is_digit c \<and> c \<noteq> 0x2E \<and> c \<noteq> 0x65 \<and> c \<noteq> 0x45)"

text \<open>
  The input \<open>t\<close> of a parser splits into the part \<open>a\<close> it reads and the rest \<open>r\<close> it
  returns; the part read ends in a character that is no white space, and is read the
  same, with the same result, before any other rest (for a value: any rest that
  \<open>follows\<close>).
\<close>

definition value_stable :: "jsstring \<Rightarrow> json \<Rightarrow> jsstring \<Rightarrow> bool" where
  "value_stable t v r \<longleftrightarrow>
     (\<exists>a. t = a @ r \<and> a \<noteq> [] \<and> \<not> is_space (last a) \<and>
          (\<forall>r'. follows r' \<longrightarrow> parse_value (a @ r') = Some (v, r')))"

definition elements_stable :: "jsstring \<Rightarrow> json list \<Rightarrow> jsstring \<Rightarrow> bool" where
  "elements_stable t vs r \<longleftrightarrow>
     (\<exists>a. t = a @ r \<and> a \<noteq> [] \<and> last a = 0x5D \<and>
          (\<forall>r'. parse_elements (a @ r') = Some (vs, r')))"

definition members_stable :: "jsstring \<Rightarrow> (jsstring \<times> json) list \<Rightarrow> jsstring \<Rightarrow> bool" where
  "members_stable t kvs r \<longleftrightarrow>
     (\<exists>a. t = a @ r \<and> a \<noteq> [] \<and> last a = 0x7D \<and>
          (\<forall>r'. parse_members (a @ r') = Some (kvs, r')))"

section \<open>Lemmas on strings and on the handlers\<close>



lemmas handler_defs =
  analyze_text_dev_def analyze_image_dev_def analyze_video_dev_def analyze_link_dev_def
  analyze_profile_dev_def analyze_text_prod_def analyze_image_prod_def analyze_video_prod_def
  analyze_link_prod_def analyze_profile_prod_def analyze_text_sl_def analyze_image_sl_def
  analyze_video_sl_def analyze_link_sl_def analyze_profile_sl_def


lemmas reply_defs = bad_request_def live_def fallback_def server_error_def




section \<open>Lemmas on numbers\<close>

text \<open>An integer of magnitude at most \<open>2^53\<close> is a double: rounding leaves it as it is.\<close>

lemma round_half_even_int [simp]: "round_half_even (of_int m) = m"
  by (simp add: round_half_even_def)

lemma floor_log2_int:
  assumes "0 < a"
  shows "floor_log2 (of_int a) = bitlen a - 1"
proof -
  have q: "quotient_of (of_int a) = (a, 1)" by (simp add: Rat.of_int_def [symmetric] quotient_of_int)
  have nn: "0 \<le> bitlen a - 1" using assms bitlen_bounds [of a] bitlen_nonneg [of a]
    by (smt (verit) bitlen_eq_zero_iff)
  have "2 ^ nat (bitlen a - 1) \<le> a" using bitlen_bounds [OF assms] by simp
  then have "(of_int (2 ^ nat (bitlen a - 1)) :: rat) \<le> of_int a" by (simp only: of_int_le_iff)
  then have "(2 :: rat) powi (bitlen a - 1) \<le> of_int a"
    using nn by (simp add: power_int_def)
  moreover have "bitlen 1 = 1" by (simp add: bitlen_alt_def)
  ultimately show ?thesis using q by (simp add: floor_log2_def Let_def)
qed

lemma number_of_pos_int:
  assumes "0 < a" and "a \<le> 2 ^ 53"
  shows "number_of (of_int a) = JNum (of_int a)"
proof -
  define k where "k = bitlen a - 1"
  have fl: "floor_log2 (of_int a) = k" using assms(1) by (simp add: floor_log2_int k_def)
  have k0: "0 \<le> k" using assms(1) bitlen_nonneg [of a] bitlen_eq_zero_iff [of a]
    unfolding k_def by linarith
  have lo: "2 ^ nat k \<le> a" using bitlen_bounds [OF assms(1)] by (simp add: k_def)
  have "a < 2 ^ nat 54" using assms(2) by simp
  then have "bitlen a \<le> 54" by (simp add: bitlen_le_iff_power)
  then have k53: "k \<le> 53" by (simp add: k_def)
  have ex: "\<exists>m. (of_int a :: rat) / 2 powi (k - 52) = of_int m"
  proof (cases "k \<le> 52")
    case True
    then have "(2 :: rat) powi (k - 52) = 1 / 2 ^ nat (52 - k)"
      by (simp add: power_int_def field_simps)
    then have "(of_int a :: rat) / 2 powi (k - 52) = of_int (a * 2 ^ nat (52 - k))" by simp
    then show ?thesis by blast
  next
    case False
    with k53 have k: "k = 53" by simp
    with lo have "2 ^ 53 \<le> a" by simp
    with assms(2) have a: "a = 2 ^ 53" by simp
    have "(of_int a :: rat) / 2 powi (k - 52) = of_int (2 ^ 52)" by (simp add: a k)
    then show ?thesis by blast
  qed
  then obtain m where m: "(of_int a :: rat) / 2 powi (k - 52) = of_int m" by blast
  have pos: "(2 :: rat) powi (k - 52) \<noteq> 0" by simp
  have r: "of_int m * (2 :: rat) powi (k - 52) = of_int a"
    using m pos by (simp add: field_simps)
  have small: "\<not> (2 :: rat) powi 1024 \<le> of_int a"
  proof -
    have "(of_int a :: rat) \<le> of_int (2 ^ 53)" using assms(2) by (simp only: of_int_le_iff)
    moreover have "(of_int (2 ^ 53) :: rat) < 2 powi 1024" by simp
    ultimately show ?thesis by linarith
  qed
  have a0: "(of_int a :: rat) \<noteq> 0" "\<not> (of_int a :: rat) < 0" "\<bar>of_int a :: rat\<bar> = of_int a"
    using assms(1) by simp_all
  have mx: "max k (- 1022) = k" using k0 by simp
  show ?thesis
    unfolding number_of_def a0 fl Let_def mx m round_half_even_int r
    using a0 small by simp
qed

lemma number_of_int:
  assumes "\<bar>n\<bar> \<le> 2 ^ 53"
  shows "number_of (of_int n) = JNum (of_int n)"
proof -
  consider "n = 0" | "0 < n" | "n < 0" by linarith
  then show ?thesis
  proof cases
    case 1
    then show ?thesis by (simp add: number_of_def)
  next
    case 2
    with assms show ?thesis by (simp add: number_of_pos_int)
  next
    case 3
    then have p: "0 < - n" "- n \<le> 2 ^ 53" using assms by simp_all
    have ab: "\<bar>of_int n :: rat\<bar> = of_int (- n)" using 3 by simp
    have "number_of (of_int (- n)) = JNum (of_int (- n))" using p by (rule number_of_pos_int)
    then show ?thesis
      using 3 unfolding number_of_def ab
      by (simp add: Let_def split: if_splits)
  qed
qed

lemma number_of_numeral [simp]:
  "numeral k \<le> (2 ^ 53 :: int) \<Longrightarrow> number_of (numeral k) = JNum (numeral k)"
  "numeral k \<le> (2 ^ 53 :: int) \<Longrightarrow> number_of (- numeral k) = JNum (- numeral k)"
  "number_of 0 = JNum 0" "number_of 1 = JNum 1"
  using number_of_int [of "numeral k"] number_of_int [of "- numeral k"]
    number_of_int [of 0] number_of_int [of 1]
  by simp_all

text \<open>
  \<open>floor_log2\<close> is the binary logarithm rounded down, and a number of magnitude
  \<open>2^1024\<close> or more is rounded to an infinity.
\<close>

lemma floor_log2_bounds:
  assumes "0 < x"
  shows "2 powi floor_log2 x \<le> x \<and> x < 2 powi (floor_log2 x + 1)"
proof -
  obtain p q where pq: "quotient_of x = (p, q)" by (cases "quotient_of x")
  then have q: "0 < q" and x: "x = of_int p / of_int q"
    using quotient_of_denom_pos [OF pq] quotient_of_div [OF pq] by simp_all
  have p: "0 < p" using assms q x by (simp add: zero_less_divide_iff)
  define k where "k = bitlen p - bitlen q"
  have bp: "2 powi (bitlen p - 1) \<le> (of_int p :: rat)" "(of_int p :: rat) < 2 powi bitlen p"
  proof -
    have "0 \<le> bitlen p - 1" using p bitlen_nonneg [of p] bitlen_eq_zero_iff [of p] by linarith
    moreover have "(of_int (2 ^ nat (bitlen p - 1)) :: rat) \<le> of_int p"
      using bitlen_bounds [OF p] by (simp only: of_int_le_iff)
    ultimately show "2 powi (bitlen p - 1) \<le> (of_int p :: rat)" by (simp add: power_int_def)
    have "(of_int p :: rat) < of_int (2 ^ nat (bitlen p))"
      using bitlen_bounds [OF p] by (simp only: of_int_less_iff)
    then show "(of_int p :: rat) < 2 powi bitlen p"
      using bitlen_nonneg [of p] by (simp add: power_int_def)
  qed
  have bq: "2 powi (bitlen q - 1) \<le> (of_int q :: rat)" "(of_int q :: rat) < 2 powi bitlen q"
  proof -
    have "0 \<le> bitlen q - 1" using q bitlen_nonneg [of q] bitlen_eq_zero_iff [of q] by linarith
    moreover have "(of_int (2 ^ nat (bitlen q - 1)) :: rat) \<le> of_int q"
      using bitlen_bounds [OF q] by (simp only: of_int_le_iff)
    ultimately show "2 powi (bitlen q - 1) \<le> (of_int q :: rat)" by (simp add: power_int_def)
    have "(of_int q :: rat) < of_int (2 ^ nat (bitlen q))"
      using bitlen_bounds [OF q] by (simp only: of_int_less_iff)
    then show "(of_int q :: rat) < 2 powi bitlen q"
      using bitlen_nonneg [of q] by (simp add: power_int_def)
  qed
  have qp: "(0 :: rat) < of_int q" using q by simp
  have lo: "2 powi (k - 1) < x"
  proof -
    have "2 powi (k - 1) * (of_int q :: rat) < 2 powi (k - 1) * 2 powi bitlen q"
      using bq(2) by simp
    also have "\<dots> = 2 powi (bitlen p - 1)"
      by (simp add: k_def power_int_add [symmetric])
    also have "\<dots> \<le> of_int p" by (rule bp(1))
    finally show ?thesis using qp by (simp add: x pos_less_divide_eq)
  qed
  have hi: "x < 2 powi (k + 1)"
  proof -
    have "(of_int p :: rat) < 2 powi bitlen p" by (rule bp(2))
    also have "\<dots> = 2 powi (k + 1) * 2 powi (bitlen q - 1)"
      by (simp add: k_def power_int_add [symmetric])
    also have "\<dots> \<le> 2 powi (k + 1) * of_int q"
      using bq(1) by simp
    finally show ?thesis using qp by (simp add: x pos_divide_less_eq)
  qed
  have fl: "floor_log2 x = (if x < 2 powi k then k - 1 else k)"
    by (simp add: floor_log2_def pq k_def Let_def)
  show ?thesis
  proof (cases "x < 2 powi k")
    case True
    with fl lo show ?thesis by simp
  next
    case False
    with fl hi show ?thesis by simp
  qed
qed

lemma number_of_overflow:
  assumes "2 powi 1024 \<le> \<bar>x\<bar>"
  shows "number_of x = JInf (x < 0)"
proof -
  define e where "e = floor_log2 \<bar>x\<bar>"
  have pos: "0 < \<bar>x\<bar>"
  proof -
    have "(0 :: rat) < 2 powi 1024" by simp
    with assms show ?thesis by linarith
  qed
  then have x0: "x \<noteq> 0" by simp
  have b: "2 powi e \<le> \<bar>x\<bar>" "\<bar>x\<bar> < 2 powi (e + 1)"
    using floor_log2_bounds [OF pos] by (simp_all add: e_def)
  have "(2 :: rat) powi 1024 < 2 powi (e + 1)" using assms b(2) by linarith
  have e: "1024 \<le> e"
  proof (rule ccontr)
    assume "\<not> 1024 \<le> e"
    then have "e + 1 \<le> 1024" by simp
    then have "(2 :: rat) powi (e + 1) \<le> 2 powi 1024" by (rule power_int_increasing) simp
    with \<open>(2 :: rat) powi 1024 < 2 powi (e + 1)\<close> show False by simp
  qed
  then have mx: "max e (- 1022) = e" by simp
  define ulp :: rat where "ulp = 2 powi (e - 52)"
  have up: "0 < ulp" by (simp add: ulp_def)
  have split: "2 powi 52 * ulp = (2 :: rat) powi e"
    using power_int_add [of "2 :: rat" 52 "e - 52"] by (simp add: ulp_def)
  then have "2 powi 52 * ulp \<le> \<bar>x\<bar>" using b(1) by simp
  then have "(2 :: rat) powi 52 \<le> \<bar>x\<bar> / ulp" using up by (simp add: pos_le_divide_eq)
  then have "(of_int (2 ^ 52) :: rat) \<le> \<bar>x\<bar> / ulp" by simp
  then have "2 ^ 52 \<le> \<lfloor>\<bar>x\<bar> / ulp\<rfloor>" by (simp only: le_floor_iff)
  moreover have "\<lfloor>y\<rfloor> \<le> round_half_even y" for y
    by (simp add: round_half_even_def Let_def)
  ultimately have "2 ^ 52 \<le> round_half_even (\<bar>x\<bar> / ulp)" by (rule order_trans)
  then have "(of_int (2 ^ 52) :: rat) \<le> of_int (round_half_even (\<bar>x\<bar> / ulp))"
    by (simp only: of_int_le_iff)
  then have "(2 :: rat) powi 52 * ulp \<le> of_int (round_half_even (\<bar>x\<bar> / ulp)) * ulp"
    using up by simp
  then have "(2 :: rat) powi e \<le> of_int (round_half_even (\<bar>x\<bar> / ulp)) * ulp"
    unfolding split .
  moreover have "(2 :: rat) powi 1024 \<le> 2 powi e"
    using e by (rule power_int_increasing) simp
  ultimately have big: "(2 :: rat) powi 1024 \<le> of_int (round_half_even (\<bar>x\<bar> / ulp)) * ulp"
    by (rule order_trans [rotated])
  show ?thesis
    unfolding number_of_def Let_def e_def [symmetric] mx ulp_def [symmetric]
    using x0 big by simp
qed

lemma number_of_huge_numeral:
  "2 ^ 1024 \<le> (numeral k :: rat) \<Longrightarrow> number_of (numeral k) = JInf False"
  using number_of_overflow [of "numeral k"] by simp
section \<open>Lemmas on the history query\<close>

text \<open>A string without surrogates, so every ASCII string, is stored as it is.\<close>

lemma bound_text_id:
  assumes "\<forall>c \<in> set s. c < 0xD800"
  shows "bound_text s = s"
  using assms
  by (induction s rule: bound_text.induct)
    (auto simp: is_high_surrogate_def is_low_surrogate_def word_le_nat_alt word_less_nat_alt)

lemma of_char_small: "(of_char c :: 16 word) < 0xD800"
proof -
  have lt: "(of_char c :: nat) < 256" by (rule nat_of_char_less_256)
  then have "(of_char c :: nat) < 65536" by linarith
  then have m: "(of_char c :: nat) mod 65536 = of_char c" by (rule mod_less)
  have u: "unat (of_nat (of_char c) :: 16 word) = (of_char c :: nat) mod 65536"
    by (simp add: unat_of_nat)
  have "unat (of_nat (of_char c) :: 16 word) < 256" unfolding u m by (rule lt)
  then have "(of_nat (of_char c) :: 16 word) < 0xD800" by (simp add: word_less_nat_alt)
  then show ?thesis by (simp add: of_nat_of_char)
qed

lemma bound_text_js [simp]: "bound_text (js s) = js s"
  by (rule bound_text_id) (auto simp: js_def of_char_small)

lemmas storage_eval = is_high_surrogate_def is_low_surrogate_def

lemma select_history_props:
  "length (select_history n x d) \<le> n"
  "sorted_wrt (\<lambda>a b. created_at b \<le> created_at a) (select_history n x d)"
  "set (select_history n x d) \<subseteq> set (rows_of (bound_text x) d)"
proof -
  let ?rows = "filter (\<lambda>r. user_email r = bound_text x) d"
  let ?key = "\<lambda>r. - int (created_at r)"
  show "length (select_history n x d) \<le> n" by (simp add: select_history_def)
  have "sorted (map ?key (sort_key ?key ?rows))" by (rule sorted_sort_key)
  then have "sorted_wrt (\<lambda>a b. created_at b \<le> created_at a) (sort_key ?key ?rows)"
    by (simp add: sorted_map)
  then show "sorted_wrt (\<lambda>a b. created_at b \<le> created_at a) (select_history n x d)"
    unfolding select_history_def by (rule sorted_wrt_take)
  have "set (take n (sort_key ?key ?rows)) \<subseteq> set (sort_key ?key ?rows)" by (rule set_take_subset)
  then show "set (select_history n x d) \<subseteq> set (rows_of (bound_text x) d)"
    by (auto simp: select_history_def rows_of_def)
qed

lemma select_history_all:
  assumes "length (rows_of (bound_text x) d) \<le> n"
  shows "mset (select_history n x d) = mset (rows_of (bound_text x) d)"
    and "length (select_history n x d) = length (rows_of (bound_text x) d)"
  using assms by (simp_all add: select_history_def rows_of_def)

lemma select_history_two_inserts:
  assumes "rows_of (bound_text x) d = []" and "t1 < t2" and "2 \<le> n"
  shows "map result (select_history n x
            (insert_history t2 x ty2 c2 r2 (insert_history t1 x ty1 c1 r1 d))) = [r2, r1]"
proof -
  obtain m where "n = Suc (Suc m)" using assms(3) by (metis Suc_le_D numeral_2_eq_2 Suc_le_mono)
  with assms(1,2) show ?thesis by (simp add: select_history_def insert_history_def rows_of_def)
qed

lemma limit_ge_2: "2 \<le> history_limit v"
  by (cases v) simp_all


lemma select_history_same_second:
  assumes "rows_of (bound_text x) d = []" and "2 \<le> n"
  shows "map result (select_history n x
            (insert_history t x ty2 c2 r2 (insert_history t x ty1 c1 r1 d))) = [r1, r2]"
proof -
  obtain m where "n = Suc (Suc m)" using assms(2) by (metis Suc_le_D numeral_2_eq_2 Suc_le_mono)
  with assms(1) show ?thesis by (simp add: select_history_def insert_history_def rows_of_def)
qed

section \<open>Lemmas on evaluation and on the backfill\<close>

lemmas json_eval =
  JSON_parse_def parse_value.simps parse_elements.simps parse_members.simps skip_ws_def
  is_json_ws_def is_digit_def digits_value_def parse_number_def parse_int_part_def
  parse_frac_part_def parse_exp_part_def number_value_def object_of_def own_property_order_def
  is_array_index_def cons_result_def
  hex4_def hex_value_def simple_escape_def

lemmas normalizer_eval =
  parseJSON_def js_trim_def is_space_def is_fence_json_def match_braces_def





lemma backfill_object: "\<exists>kvs'. backfill e (JObj kvs) = Inr (JObj kvs')"
  by (auto simp: backfill_def get_prop_def set_prop_def)





lemma JSON_parse_ai_only: "JSON_parse ai_only = Some (JObj [(js ''aiProbability'', JNum 30)])"
  by (simp add: ai_only_def json_eval js_def)

lemma ai_only_not_empty: "ai_only \<noteq> []" and human_only_not_empty: "human_only \<noteq> []"
  by (simp_all add: ai_only_def human_only_def)

text \<open>
  Beyond the doubles: the number of the payload \<open>{"aiProbability":1e400}\<close> is read as
  \<open>Infinity\<close>, the backfill of the production server computes \<open>-Infinity\<close> from it,
  and the reply, in which both are serialised as \<open>null\<close>, has no two numbers that sum
  to 100.
\<close>

lemma parse_ai_overflowing:
  "parseJSON ai_overflowing = JObj [(js ''aiProbability'', JInf False)]"
  by (simp add: ai_overflowing_def json_eval normalizer_eval js_def number_of_huge_numeral)

lemma backfill_of_infinity:
  "fst (analyze Prod Text (example_env (Returned (Some ai_overflowing))) example_request []) =
     \<lparr>sent_by = Try, http_status = 200,
        body = JObj [(js ''aiProbability'', JInf False), (js ''humanProbability'', JInf True)]\<rparr> \<and>
   \<not> probabilities_sum_to_100
       (JObj [(js ''aiProbability'', JInf False), (js ''humanProbability'', JInf True)])"
proof -
  have ne: "ai_overflowing \<noteq> []" by (simp add: ai_overflowing_def)
  have "backfill (example_env (Returned (Some ai_overflowing)))
      (JObj [(js ''aiProbability'', JInf False)]) =
      Inr (JObj [(js ''aiProbability'', JInf False), (js ''humanProbability'', JInf True)])"
    by (simp add: backfill_def get_prop_def set_prop_def not_nullish_def minus_from_100_def
        to_numeric_def js_def)
  then have "fst (analyze Prod Text (example_env (Returned (Some ai_overflowing))) example_request []) =
     \<lparr>sent_by = Try, http_status = 200,
        body = JObj [(js ''aiProbability'', JInf False), (js ''humanProbability'', JInf True)]\<rparr>"
    using parse_ai_overflowing ne
    by (simp add: analyze_text_prod_def example_env_def example_request_def or_else_def live_def
        js_def)
  moreover have "\<not> probabilities_sum_to_100
       (JObj [(js ''aiProbability'', JInf False), (js ''humanProbability'', JInf True)])"
    by (simp add: probabilities_sum_to_100_def js_def)
  ultimately show ?thesis by simp
qed

text \<open>
  The properties of a parsed object come in the order of its own property keys: in
  \<open>{"b":1,"1":2}\<close> the array index \<open>1\<close> comes before \<open>b\<close>.
\<close>

lemma index_keys_first:
  "JSON_parse ([0x7B, 0x22] @ js ''b'' @ [0x22] @ js '':1,'' @ [0x22] @ js ''1'' @ [0x22] @
       js '':2'' @ [0x7D]) =
     Some (JObj [(js ''1'', JNum 2), (js ''b'', JNum 1)])"
  by (simp add: json_eval js_def)
section \<open>Lemmas on the table and on the image handlers\<close>

lemma set_prop_cases:
  "set_prop e v k x = Inr v' \<Longrightarrow>
     (\<exists>kvs. v = JObj kvs \<and> v' = JObj (AList.update k x kvs)) \<or> (\<exists>xs. v = JArr xs \<and> v' = v)"
  by (auto simp: set_prop_def split: json.splits)



lemma exif_after_set:
  "exif_of (JObj (AList.update (js ''exif'') x kvs)) = Some x"
  by (simp add: exif_of_def update_conv')

lemma image_try_set:
  assumes "req_file req = Some file" and "sent_by (fst (analyze v Image e req d)) = Try"
  shows "\<exists>res. set_prop e res (js ''exif'')
                 (case exif_data file of None \<Rightarrow> JObj [] | Some x \<Rightarrow> x) =
               Inr (body (fst (analyze v Image e req d)))"
  using assms
  by (cases v)
    (auto simp: handler_defs reply_defs Let_def
      split: option.splits sum.splits model_outcome.splits if_splits)

lemma image_try_body:
  assumes "req_file req = Some file" and "sent_by (fst (analyze v Image e req d)) = Try"
  shows "exif_of (body (fst (analyze v Image e req d))) =
           Some (case exif_data file of None \<Rightarrow> JObj [] | Some x \<Rightarrow> x) \<or>
         (\<exists>xs. body (fst (analyze v Image e req d)) = JArr xs)"
proof -
  obtain res where "set_prop e res (js ''exif'')
      (case exif_data file of None \<Rightarrow> JObj [] | Some x \<Rightarrow> x) =
      Inr (body (fst (analyze v Image e req d)))"
    using image_try_set [OF assms] by blast
  from set_prop_cases [OF this] show ?thesis
    by (auto simp: exif_after_set)
qed

lemma image_object_payload:
  assumes "req_file req = Some file" and "outcome e = Returned rt"
    and "payload v rt = Some (JObj kvs)"
  shows "sent_by (fst (analyze v Image e req d)) = Try \<and>
         http_status (fst (analyze v Image e req d)) = 200 \<and>
         exif_of (body (fst (analyze v Image e req d))) =
           Some (case exif_data file of None \<Rightarrow> JObj [] | Some x \<Rightarrow> x)"
proof (cases v)
  case Dev
  with assms show ?thesis
    by (simp add: analyze_image_dev_def set_prop_def live_def exif_after_set Let_def)
next
  case Prod
  obtain kvs' where "backfill e (JObj kvs) = Inr (JObj kvs')"
    using backfill_object by blast
  with Prod assms show ?thesis
    by (simp add: analyze_image_prod_def set_prop_def live_def exif_after_set Let_def)
next
  case Serverless
  with assms show ?thesis
    by (simp add: analyze_image_sl_def set_prop_def live_def exif_after_set Let_def)
qed





text \<open>The table after one successful text analysis on the development server.\<close>

lemma first_call:
  "step Dev (Analyze Text (example_env (Returned (Some ai_only))) example_request) [] =
     [\<lparr>row_id = 1, user_email = js ''ann@example.org'', row_type = js ''text'',
        content = js ''The quick brown fox.'', result = JObj [(js ''aiProbability'', JNum 30)],
        created_at = 1700000000\<rparr>]"
  using JSON_parse_ai_only ai_only_not_empty
  by (simp add: analyze_text_dev_def example_env_def example_request_def or_else_def live_def
      insert_history_def js_def storage_eval)

section \<open>Lemmas on the removal of fences\<close>

lemma not_includes_tl: "\<not> js_includes (c # cs) n \<Longrightarrow> \<not> js_includes cs n"
  by simp

lemma not_includes_dropWhile: "\<not> js_includes s n \<Longrightarrow> \<not> js_includes (dropWhile P s) n"
  by (induction s) (auto split: if_splits)

lemma fence_json_prefix: "is_fence_json t \<Longrightarrow> prefix backticks t"
  by (auto simp: is_fence_json_def backticks_def split: list.splits)

lemma strip_json_fences_id: "\<not> js_includes t backticks \<Longrightarrow> strip_json_fences t = t"
proof (induction t)
  case Nil
  then show ?case by simp
next
  case (Cons c cs)
  from Cons.prems have "\<not> prefix backticks (c # cs)" and "\<not> js_includes cs backticks" by simp_all
  with Cons.IH fence_json_prefix [of "c # cs"] show ?case by auto
qed

lemma strip_fences_id: "\<not> js_includes t backticks \<Longrightarrow> strip_fences t = t"
proof (induction t)
  case Nil
  then show ?case by simp
next
  case (Cons c cs)
  from Cons.prems have "\<not> prefix backticks (c # cs)" and "\<not> js_includes cs backticks" by simp_all
  with Cons.IH show ?case by (auto simp: backticks_def)
qed

lemma prefix_backticks_closing:
  assumes "prefix backticks (s @ [0x0A] @ backticks)" and "s \<noteq> []"
  shows "prefix backticks s"
proof -
  consider a where "s = [a]" | a b where "s = [a, b]" | a b c u where "s = a # b # c # u"
    using assms(2) by (metis list.exhaust)
  then show ?thesis
    using assms(1) by cases (auto simp: backticks_def)
qed

lemma strip_json_fences_closing:
  "\<not> js_includes s backticks \<Longrightarrow>
     strip_json_fences (s @ 0x0A # backticks) = s @ 0x0A # backticks"
proof (induction s)
  case Nil
  then show ?case by (simp add: backticks_def is_fence_json_def)
next
  case (Cons c cs)
  from Cons.prems have np: "\<not> prefix backticks (c # cs)" and nc: "\<not> js_includes cs backticks"
    by simp_all
  have "\<not> prefix backticks ((c # cs) @ [0x0A] @ backticks)"
    using np prefix_backticks_closing [of "c # cs"] by blast
  then have "\<not> is_fence_json (c # cs @ [0x0A] @ backticks)"
    using fence_json_prefix [of "c # cs @ [0x0A] @ backticks"] by auto
  with Cons.IH [OF nc] show ?case by simp
qed

lemma strip_fences_closing:
  "\<not> js_includes s backticks \<Longrightarrow> strip_fences (s @ 0x0A # backticks) = s @ [0x0A]"
proof (induction s)
  case Nil
  then show ?case by (simp add: backticks_def)
next
  case (Cons c cs)
  from Cons.prems have np: "\<not> prefix backticks (c # cs)" and nc: "\<not> js_includes cs backticks"
    by simp_all
  have "\<not> prefix backticks ((c # cs) @ [0x0A] @ backticks)"
    using np prefix_backticks_closing [of "c # cs"] by blast
  then have "\<not> prefix [0x60, 0x60, 0x60] (c # cs @ [0x0A] @ backticks)"
    by (simp add: backticks_def)
  with Cons.IH [OF nc] show ?case by auto
qed

lemma is_space_newline: "is_space 0x0A"
  by (simp add: is_space_def)

lemma not_space_backtick: "\<not> is_space 0x60"
  by (simp add: is_space_def)

lemma js_trim_all_space: "\<forall>c\<in>set s. is_space c \<Longrightarrow> js_trim s = []"
proof -
  assume "\<forall>c\<in>set s. is_space c"
  then have d: "dropWhile is_space s = []" by (induction s) auto
  show ?thesis unfolding js_trim_def d by simp
qed

lemma js_trim_dropWhile_space:
  assumes "is_space w"
  shows "js_trim (dropWhile is_space s @ [w]) = js_trim s"
proof (cases "dropWhile is_space s")
  case Nil
  have "js_trim ([] @ [w]) = []" using assms by (simp add: js_trim_def)
  moreover have "js_trim s = []" unfolding js_trim_def Nil by simp
  ultimately show ?thesis unfolding Nil by simp
next
  case (Cons a u)
  then have "\<not> is_space a" by (metis hd_dropWhile list.sel(1) list.distinct(1))
  then show ?thesis using Cons assms by (simp add: js_trim_def)
qed

text \<open>What the two replacements leave of the part of a fenced text after its opening line.\<close>

lemma strip_after_opening:
  assumes "\<not> js_includes s backticks"
  shows "js_trim (strip_fences (strip_json_fences (dropWhile is_space (s @ [0x0A] @ backticks)))) =
         js_trim s"
proof (cases "\<forall>c\<in>set s. is_space c")
  case True
  then have "dropWhile is_space (s @ [0x0A] @ backticks) = backticks"
    by (simp add: dropWhile_append is_space_newline not_space_backtick backticks_def)
  moreover have "strip_fences (strip_json_fences backticks) = []"
    by (simp add: backticks_def is_fence_json_def)
  moreover have "js_trim [] = []" by (simp add: js_trim_def)
  ultimately show ?thesis using js_trim_all_space [OF True] by simp
next
  case False
  let ?s = "dropWhile is_space s"
  from False have "dropWhile is_space (s @ [0x0A] @ backticks) = ?s @ [0x0A] @ backticks"
    by (auto simp: dropWhile_append)
  moreover have n: "\<not> js_includes ?s backticks"
    using assms by (rule not_includes_dropWhile)
  ultimately have "strip_fences (strip_json_fences (dropWhile is_space (s @ [0x0A] @ backticks))) =
      ?s @ [0x0A]"
    by (simp add: strip_json_fences_closing strip_fences_closing)
  then show ?thesis
    using js_trim_dropWhile_space [OF is_space_newline, of s] by simp
qed

lemma stripped_plain: "\<not> js_includes s backticks \<Longrightarrow> stripped s = js_trim s"
  by (simp add: stripped_def strip_json_fences_id strip_fences_id)

lemma stripped_fence_wrap:
  assumes "\<not> js_includes s backticks" and "json_tag lang"
  shows "stripped (fence_wrap lang s) = js_trim s"
proof (cases "lang = []")
  case True
  have a: "strip_json_fences (fence_wrap [] s) = backticks @ [0x0A] @ s @ [0x0A] @ backticks"
    using strip_json_fences_closing [OF assms(1)]
    by (simp add: fence_wrap_def backticks_def is_fence_json_def split: list.splits)
  have "strip_fences (backticks @ [0x0A] @ s @ [0x0A] @ backticks) =
      strip_fences (dropWhile is_space (s @ [0x0A] @ backticks))"
    by (simp add: backticks_def is_space_newline)
  also have "\<dots> = strip_fences (strip_json_fences (dropWhile is_space (s @ [0x0A] @ backticks)))"
  proof (cases "\<forall>c\<in>set s. is_space c")
    case True
    then have "dropWhile is_space (s @ [0x0A] @ backticks) = backticks"
      by (simp add: dropWhile_append is_space_newline not_space_backtick backticks_def)
    then show ?thesis by (simp add: backticks_def is_fence_json_def)
  next
    case False
    then have "dropWhile is_space (s @ [0x0A] @ backticks) =
        dropWhile is_space s @ [0x0A] @ backticks"
      by (auto simp: dropWhile_append)
    then show ?thesis
      using strip_json_fences_closing [OF not_includes_dropWhile [OF assms(1)], of is_space]
      by simp
  qed
  finally show ?thesis
    using True a strip_after_opening [OF assms(1)] by (simp add: stripped_def)
next
  case False
  with assms(2) obtain cj cs co cn where lang: "lang = [cj, cs, co, cn]"
    and f: "is_fence_json (backticks @ [cj, cs, co, cn])"
    by (auto simp: json_tag_def length_Suc_conv numeral_eq_Suc)
  from f have "is_fence_json (fence_wrap lang s)"
    by (simp add: fence_wrap_def lang backticks_def is_fence_json_def)
  then have "strip_json_fences (fence_wrap lang s) =
      strip_json_fences (dropWhile is_space (s @ [0x0A] @ backticks))"
    by (simp add: fence_wrap_def lang backticks_def is_space_newline)
  then show ?thesis
    using strip_after_opening [OF assms(1)] by (simp add: stripped_def)
qed

lemma parseJSON_stripped:
  "parseJSON t =
     (case JSON_parse (stripped t) of
        Some v \<Rightarrow> v
      | None \<Rightarrow>
          (case match_braces (stripped t) of
             None \<Rightarrow> JObj []
           | Some m \<Rightarrow> (case JSON_parse m of Some v \<Rightarrow> v | None \<Rightarrow> JObj [])))"
  unfolding parseJSON_def stripped_def Let_def by (rule refl)

lemma parseJSON_cong:
  assumes "stripped t = stripped u"
  shows "parseJSON t = parseJSON u"
  unfolding parseJSON_stripped assms by (rule refl)

section \<open>Lemmas on the object pattern\<close>

lemma subseq_strip_json_fences: "subseq (strip_json_fences t) t"
proof (induction t rule: strip_json_fences.induct)
  case 1
  then show ?case by simp
next
  case (2 c cs)
  show ?case
  proof (cases "is_fence_json (c # cs)")
    case True
    have "suffix (dropWhile is_space (drop 6 cs)) (drop 6 cs)" by (rule suffix_dropWhile)
    moreover have "suffix (drop 6 cs) (c # cs)" by (simp add: suffix_drop suffix_ConsI)
    ultimately have "subseq (dropWhile is_space (drop 6 cs)) (c # cs)"
      by (meson suffix_imp_subseq suffix_order.trans)
    from subseq_order.trans [OF 2(1) [OF True] this] True show ?thesis
      by (simp del: subseq_Cons2_iff)
  next
    case False
    with 2(2) [OF False] show ?thesis by simp
  qed
qed

lemma subseq_strip_fences: "subseq (strip_fences t) t"
proof (induction t rule: strip_fences.induct)
  case 1
  then show ?case by simp
next
  case (2 c cs)
  show ?case
  proof (cases "prefix [0x60, 0x60, 0x60] (c # cs)")
    case True
    have "suffix (dropWhile is_space (drop 2 cs)) (drop 2 cs)" by (rule suffix_dropWhile)
    moreover have "suffix (drop 2 cs) (c # cs)" by (simp add: suffix_drop suffix_ConsI)
    ultimately have "subseq (dropWhile is_space (drop 2 cs)) (c # cs)"
      by (meson suffix_imp_subseq suffix_order.trans)
    from subseq_order.trans [OF 2(1) [OF True] this] True show ?thesis
      by (simp del: subseq_Cons2_iff Cons_prefix_Cons)
  next
    case False
    with 2(2) [OF False] show ?thesis by (simp del: Cons_prefix_Cons)
  qed
qed

lemma subseq_js_trim: "subseq (js_trim t) t"
proof -
  have "suffix (dropWhile is_space (rev (dropWhile is_space t))) (rev (dropWhile is_space t))"
    by (rule suffix_dropWhile)
  then have "prefix (js_trim t) (dropWhile is_space t)"
    by (simp add: suffix_to_prefix js_trim_def)
  moreover have "suffix (dropWhile is_space t) t" by (rule suffix_dropWhile)
  ultimately show ?thesis
    by (meson prefix_imp_subseq suffix_imp_subseq subseq_order.trans)
qed

lemma subseq_stripped: "subseq (stripped t) t"
  unfolding stripped_def
  by (meson subseq_js_trim subseq_strip_fences subseq_strip_json_fences subseq_order.trans)

lemma set_after_dropWhile: "\<not> P x \<Longrightarrow> set (x # q) \<subseteq> set (dropWhile P (p @ x # q))"
  by (induction p) auto

lemma object_pattern_iff:
  "object_pattern t \<longleftrightarrow> (\<exists>p q. t = p @ 0x7B # q \<and> 0x7D \<in> set q)"
proof
  assume a: "object_pattern t"
  let ?u = "dropWhile (\<lambda>c. c \<noteq> 0x7B) t"
  have ne: "?u \<noteq> []"
  proof
    assume "?u = []"
    with a show False unfolding object_pattern_def by simp
  qed
  then have "hd ?u = 0x7B" using hd_dropWhile [of "\<lambda>c. c \<noteq> 0x7B" t] by simp
  with ne obtain q where u: "?u = 0x7B # q" by (cases ?u) auto
  with a have "0x7D \<in> set q" by (simp add: object_pattern_def)
  moreover have "t = takeWhile (\<lambda>c. c \<noteq> 0x7B) t @ 0x7B # q"
    using u takeWhile_dropWhile_id [of "\<lambda>c. c \<noteq> 0x7B" t] by simp
  ultimately show "\<exists>p q. t = p @ 0x7B # q \<and> 0x7D \<in> set q" by blast
next
  assume "\<exists>p q. t = p @ 0x7B # q \<and> 0x7D \<in> set q"
  then obtain p q where t: "t = p @ 0x7B # q" and q: "0x7D \<in> set q" by blast
  have "set (0x7B # q) \<subseteq> set (dropWhile (\<lambda>c. c \<noteq> 0x7B) (p @ 0x7B # q))"
    by (rule set_after_dropWhile) simp
  with q show "object_pattern t" unfolding object_pattern_def t by auto
qed

lemma object_pattern_subseq:
  assumes "object_pattern u" and "subseq u t"
  shows "object_pattern t"
proof -
  from assms(1) obtain p q where u: "u = p @ 0x7B # q" and q: "0x7D \<in> set q"
    unfolding object_pattern_iff by blast
  from assms(2) obtain us vs where t: "t = us @ vs" and "subseq (0x7B # q) vs"
    unfolding u using list_emb_appendD by blast
  then obtain us' vs' where vs: "vs = us' @ 0x7B # vs'" and sq: "subseq q vs'"
    using list_emb_ConsD [of "(=)" "0x7B" q vs] by auto
  from sq q obtain y where "y \<in> set vs'" and "0x7D = y" by (rule list_emb_set)
  then have "0x7D \<in> set vs'" by simp
  moreover have "t = (us @ us') @ 0x7B # vs'" using t vs by simp
  ultimately have "\<exists>p q. t = p @ 0x7B # q \<and> 0x7D \<in> set q" by blast
  then show ?thesis by (simp add: object_pattern_iff)
qed

lemma match_braces_None: "match_braces t = None \<longleftrightarrow> \<not> object_pattern t"
proof -
  let ?u = "dropWhile (\<lambda>c. c \<noteq> 0x7B) t"
  show ?thesis
  proof (cases ?u)
    case Nil
    show ?thesis unfolding match_braces_def object_pattern_def Let_def Nil by simp
  next
    case (Cons a q)
    then have "a = 0x7B" using hd_dropWhile [of "\<lambda>c. c \<noteq> 0x7B" t] by simp
    with Cons show ?thesis by (simp add: match_braces_def object_pattern_def)
  qed
qed


lemma stripped_apology: "stripped apology = apology"
  by (simp add: stripped_def apology_def js_def js_trim_def is_space_def is_fence_json_def)

section \<open>A value is read the same whatever follows it\<close>

subsection \<open>Numbers\<close>

lemma takeWhile_digits_append:
  assumes "\<forall>c\<in>set ds. is_digit c" and "r = [] \<or> \<not> is_digit (hd r)"
  shows "takeWhile is_digit (ds @ r) = ds" and "dropWhile is_digit (ds @ r) = r"
proof -
  have t: "takeWhile is_digit r = []" and d: "dropWhile is_digit r = r"
    using assms(2) by (cases r; auto)+
  show "takeWhile is_digit (ds @ r) = ds" using assms(1) t by (simp add: takeWhile_append2)
  show "dropWhile is_digit (ds @ r) = r" using assms(1) d by (simp add: dropWhile_append2)
qed

lemma takeWhile_digits_props:
  assumes "is_digit d"
  shows "takeWhile is_digit (d # r) \<noteq> []"
    and "\<forall>c\<in>set (takeWhile is_digit (d # r)). is_digit c"
    and "is_digit (last (takeWhile is_digit (d # r)))"
    and "hd (takeWhile is_digit (d # r)) = d"
proof -
  show ne: "takeWhile is_digit (d # r) \<noteq> []" using assms by simp
  show all: "\<forall>c\<in>set (takeWhile is_digit (d # r)). is_digit c"
    by (meson set_takeWhileD)
  show "is_digit (last (takeWhile is_digit (d # r)))"
    using ne all last_in_set by blast
  show "hd (takeWhile is_digit (d # r)) = d" using assms by simp
qed

lemma parse_int_part_stable:
  assumes "parse_int_part t = Some (ds, r)"
  shows "t = ds @ r \<and> ds \<noteq> [] \<and> is_digit (hd ds) \<and> is_digit (last ds) \<and>
         (\<forall>r'. r' = [] \<or> \<not> is_digit (hd r') \<longrightarrow> parse_int_part (ds @ r') = Some (ds, r'))"
proof (cases t)
  case Nil
  with assms show ?thesis by (simp add: parse_int_part_def)
next
  case (Cons d u)
  show ?thesis
  proof (cases "d = 0x30")
    case True
    with Cons assms have "ds = [d]" and "r = u" by (simp_all add: parse_int_part_def)
    with True Cons show ?thesis by (simp add: parse_int_part_def is_digit_def)
  next
    case False
    with Cons assms have dig: "is_digit d" by (auto simp: parse_int_part_def split: if_splits)
    with False Cons assms have ds: "ds = takeWhile is_digit (d # u)"
      and r: "r = dropWhile is_digit (d # u)" by (simp_all add: parse_int_part_def)
    note p = takeWhile_digits_props [OF dig, of u, folded ds]
    have "t = ds @ r" using ds r Cons by simp
    moreover have "parse_int_part (ds @ r') = Some (ds, r')" if "r' = [] \<or> \<not> is_digit (hd r')" for r'
    proof -
      obtain ds' where c: "ds = d # ds'" using p(1,4) by (cases ds) auto
      have "takeWhile is_digit (ds @ r') = ds" "dropWhile is_digit (ds @ r') = r'"
        using takeWhile_digits_append [OF p(2) that] by simp_all
      then show ?thesis using False dig unfolding c by (simp add: parse_int_part_def)
    qed
    ultimately show ?thesis using p dig by simp
  qed
qed

lemma parse_frac_part_stable:
  assumes "parse_frac_part t = Some (fs, r)"
  shows "\<exists>a. t = a @ r \<and> (a = [] \<or> hd a = 0x2E \<and> is_digit (last a)) \<and>
           (\<forall>r'. (r' = [] \<or> \<not> is_digit (hd r')) \<and> (a = [] \<longrightarrow> r' = [] \<or> hd r' \<noteq> 0x2E) \<longrightarrow>
              parse_frac_part (a @ r') = Some (fs, r'))"
proof (cases "t \<noteq> [] \<and> hd t = 0x2E")
  case False
  with assms have "fs = []" and "r = t"
    by (auto simp: parse_frac_part_def split: list.splits if_splits)
  moreover have "parse_frac_part r' = Some ([], r')" if "r' = [] \<or> hd r' \<noteq> 0x2E" for r'
    using that by (cases r') (auto simp: parse_frac_part_def)
  ultimately have "t = [] @ r \<and> ([] = [] \<or> hd [] = 0x2E \<and> is_digit (last [])) \<and>
           (\<forall>r'. (r' = [] \<or> \<not> is_digit (hd r')) \<and> ([] = ([]::jsstring) \<longrightarrow> r' = [] \<or> hd r' \<noteq> 0x2E) \<longrightarrow>
              parse_frac_part ([] @ r') = Some (fs, r'))"
    by simp
  then show ?thesis by blast
next
  case True
  then obtain u where t: "t = 0x2E # u" by (cases t) auto
  with assms have ne: "takeWhile is_digit u \<noteq> []" and fs: "fs = takeWhile is_digit u"
    and r: "r = dropWhile is_digit u"
    by (auto simp: parse_frac_part_def split: if_splits)
  from ne obtain d u' where u: "u = d # u'" and dig: "is_digit d"
    by (cases u) (auto split: if_splits)
  note p = takeWhile_digits_props [OF dig, of u', folded u, folded fs]
  let ?a = "0x2E # fs"
  have "t = ?a @ r" using t fs r by simp
  moreover have "hd ?a = 0x2E \<and> is_digit (last ?a)" using p by simp
  moreover have "parse_frac_part (?a @ r') = Some (fs, r')" if "r' = [] \<or> \<not> is_digit (hd r')" for r'
  proof -
    have "takeWhile is_digit (fs @ r') = fs" "dropWhile is_digit (fs @ r') = r'"
      using takeWhile_digits_append [OF p(2) that] by simp_all
    then show ?thesis using p(1) by (simp add: parse_frac_part_def)
  qed
  ultimately have "t = ?a @ r \<and> (?a = [] \<or> hd ?a = 0x2E \<and> is_digit (last ?a)) \<and>
           (\<forall>r'. (r' = [] \<or> \<not> is_digit (hd r')) \<and> (?a = [] \<longrightarrow> r' = [] \<or> hd r' \<noteq> 0x2E) \<longrightarrow>
              parse_frac_part (?a @ r') = Some (fs, r'))"
    by blast
  then show ?thesis by (rule exI)
qed


lemma parse_exp_part_stable:
  assumes "parse_exp_part t = Some (ex, r)"
  shows "\<exists>a. t = a @ r \<and> (a = [] \<or> (hd a = 0x65 \<or> hd a = 0x45) \<and> is_digit (last a)) \<and>
           (\<forall>r'. (r' = [] \<or> \<not> is_digit (hd r')) \<and>
                 (a = [] \<longrightarrow> r' = [] \<or> hd r' \<noteq> 0x65 \<and> hd r' \<noteq> 0x45) \<longrightarrow>
              parse_exp_part (a @ r') = Some (ex, r'))"
proof (cases "t \<noteq> [] \<and> (hd t = 0x65 \<or> hd t = 0x45)")
  case False
  with assms have "ex = 0" and "r = t"
    by (auto simp: parse_exp_part_def split: list.splits if_splits)
  moreover have "parse_exp_part r' = Some (0, r')" if "r' = [] \<or> hd r' \<noteq> 0x65 \<and> hd r' \<noteq> 0x45" for r'
    using that by (cases r') (auto simp: parse_exp_part_def)
  ultimately have "t = [] @ r \<and> ([] = [] \<or> (hd [] = 0x65 \<or> hd [] = 0x45) \<and> is_digit (last [])) \<and>
           (\<forall>r'. (r' = [] \<or> \<not> is_digit (hd r')) \<and>
                 ([] = ([]::jsstring) \<longrightarrow> r' = [] \<or> hd r' \<noteq> 0x65 \<and> hd r' \<noteq> 0x45) \<longrightarrow>
              parse_exp_part ([] @ r') = Some (ex, r'))"
    by simp
  then show ?thesis by blast
next
  case True
  then obtain e u where t: "t = e # u" and e: "e = 0x65 \<or> e = 0x45" by (cases t) auto
  define sg where "sg = (case u of [] \<Rightarrow> [] | s # _ \<Rightarrow> if s = 0x2B \<or> s = 0x2D then [s] else [])"
  define r1 where "r1 = (case u of [] \<Rightarrow> u | s # u' \<Rightarrow> if s = 0x2B \<or> s = 0x2D then u' else u)"
  define neg where "neg = (case u of [] \<Rightarrow> False | s # _ \<Rightarrow> s = 0x2D)"
  have u: "u = sg @ r1" by (cases u) (auto simp: sg_def r1_def)
  from assms t e have ne: "takeWhile is_digit r1 \<noteq> []"
    and ex: "ex = (if neg then - int (digits_value (takeWhile is_digit r1))
                   else int (digits_value (takeWhile is_digit r1)))"
    and r: "r = dropWhile is_digit r1"
    by (auto simp: parse_exp_part_def Let_def r1_def neg_def split: if_splits)
  define es where "es = takeWhile is_digit r1"
  from ne obtain d u' where r1: "r1 = d # u'" and dig: "is_digit d"
    by (cases r1) (auto split: if_splits)
  note p = takeWhile_digits_props [OF dig, of u', folded r1, folded es_def]
  let ?a = "e # sg @ es"
  have "t = ?a @ r" using t u r es_def by simp
  moreover have "(hd ?a = 0x65 \<or> hd ?a = 0x45) \<and> is_digit (last ?a)" using e p by simp
  moreover have "parse_exp_part (?a @ r') = Some (ex, r')" if "r' = [] \<or> \<not> is_digit (hd r')" for r'
  proof -
    have tk: "takeWhile is_digit (es @ r') = es" "dropWhile is_digit (es @ r') = r'"
      using takeWhile_digits_append [OF p(2) that] by simp_all
    obtain es' where c: "es = d # es'" using p(1,4) by (cases es) auto
    have nd: "d \<noteq> 0x2B" "d \<noteq> 0x2D" using dig by (auto simp: is_digit_def)
    have n': "(case sg @ es @ r' of [] \<Rightarrow> False | s # _ \<Rightarrow> s = 0x2D) = neg"
      using nd r1 unfolding c u by (cases u) (auto simp: sg_def neg_def r1_def split: if_splits)
    have r1': "(case sg @ es @ r' of [] \<Rightarrow> sg @ es @ r'
               | s # u' \<Rightarrow> if s = 0x2B \<or> s = 0x2D then u' else sg @ es @ r') = es @ r'"
      using nd unfolding c by (cases u) (auto simp: sg_def split: if_splits)
    show ?thesis
      using e p(1) tk unfolding ex es_def [symmetric]
      by (simp add: parse_exp_part_def Let_def n' r1')
  qed
  ultimately have "t = ?a @ r \<and> (?a = [] \<or> (hd ?a = 0x65 \<or> hd ?a = 0x45) \<and> is_digit (last ?a)) \<and>
           (\<forall>r'. (r' = [] \<or> \<not> is_digit (hd r')) \<and>
                 (?a = [] \<longrightarrow> r' = [] \<or> hd r' \<noteq> 0x65 \<and> hd r' \<noteq> 0x45) \<longrightarrow>
              parse_exp_part (?a @ r') = Some (ex, r'))"
    by blast
  then show ?thesis by (rule exI)
qed

lemma follows_iff:
  "follows r \<longleftrightarrow> r = [] \<or> (\<not> is_digit (hd r) \<and> hd r \<noteq> 0x2E \<and> hd r \<noteq> 0x65 \<and> hd r \<noteq> 0x45)"
  by (cases r) (simp_all add: follows_def)

lemma digit_is_no_mark:
  assumes "is_digit c"
  shows "c \<noteq> 0x2D" and "c \<noteq> 0x2E" and "c \<noteq> 0x65" and "c \<noteq> 0x45"
  using assms by (auto simp: is_digit_def)

lemma hd_append_if: "hd (x @ y) = (if x = [] then hd y else hd x)"
  by (cases x) simp_all

lemma parse_number_stable:
  assumes "parse_number t = Some (n, r)"
  shows "\<exists>a. t = a @ r \<and> a \<noteq> [] \<and> is_digit (last a) \<and> (hd a = 0x2D \<or> is_digit (hd a)) \<and>
           (\<forall>r'. follows r' \<longrightarrow> parse_number (a @ r') = Some (n, r'))"
proof -
  define neg where "neg = (case t of [] \<Rightarrow> False | c # _ \<Rightarrow> c = 0x2D)"
  define t1 where "t1 = (if neg then tl t else t)"
  define sg :: jsstring where "sg = (if neg then [0x2D] else [])"
  have t: "t = sg @ t1" by (cases t) (auto simp: sg_def t1_def neg_def)
  from assms obtain ds t2 fs t3 ex where
    i: "parse_int_part t1 = Some (ds, t2)" and f: "parse_frac_part t2 = Some (fs, t3)" and
    x: "parse_exp_part t3 = Some (ex, r)" and n: "n = number_value neg ds fs ex"
    by (auto simp: parse_number_def Let_def neg_def t1_def split: option.splits)
  from parse_int_part_stable [OF i] have
    i1: "t1 = ds @ t2" and i2: "ds \<noteq> []" and i3: "is_digit (hd ds)" and i4: "is_digit (last ds)" and
    i5: "\<And>r'. r' = [] \<or> \<not> is_digit (hd r') \<Longrightarrow> parse_int_part (ds @ r') = Some (ds, r')"
    by blast+
  from parse_frac_part_stable [OF f] obtain af where
    f1: "t2 = af @ t3" and f2: "af = [] \<or> hd af = 0x2E \<and> is_digit (last af)" and
    f3: "\<And>r'. (r' = [] \<or> \<not> is_digit (hd r')) \<and> (af = [] \<longrightarrow> r' = [] \<or> hd r' \<noteq> 0x2E) \<Longrightarrow>
              parse_frac_part (af @ r') = Some (fs, r')"
    by blast
  from parse_exp_part_stable [OF x] obtain ae where
    x1: "t3 = ae @ r" and x2: "ae = [] \<or> (hd ae = 0x65 \<or> hd ae = 0x45) \<and> is_digit (last ae)" and
    x3: "\<And>r'. (r' = [] \<or> \<not> is_digit (hd r')) \<and>
                 (ae = [] \<longrightarrow> r' = [] \<or> hd r' \<noteq> 0x65 \<and> hd r' \<noteq> 0x45) \<Longrightarrow>
              parse_exp_part (ae @ r') = Some (ex, r')"
    by blast
  let ?a = "sg @ ds @ af @ ae"
  have nomark: "\<not> is_digit 0x2E" "\<not> is_digit 0x65" "\<not> is_digit 0x45"
    by (simp_all add: is_digit_def)
  have a1: "t = ?a @ r" using t i1 f1 x1 by simp
  have a2: "?a \<noteq> []" using i2 by simp
  have a3: "is_digit (last ?a)" using i2 i4 f2 x2 by (auto simp: last_append)
  have a4: "hd ?a = 0x2D \<or> is_digit (hd ?a)" using i2 i3 by (auto simp: sg_def hd_append_if)
  have a5: "parse_number (?a @ r') = Some (n, r')" if fo: "follows r'" for r'
  proof -
    from fo have r': "r' = [] \<or> (\<not> is_digit (hd r') \<and> hd r' \<noteq> 0x2E \<and> hd r' \<noteq> 0x65 \<and> hd r' \<noteq> 0x45)"
      by (simp add: follows_iff)
    have e: "parse_exp_part (ae @ r') = Some (ex, r')" using x3 [of r'] r' by blast
    have fr: "parse_frac_part (af @ ae @ r') = Some (fs, ae @ r')"
      using f3 [of "ae @ r'"] x2 r' nomark by (auto simp: hd_append_if)
    have it: "parse_int_part (ds @ af @ ae @ r') = Some (ds, af @ ae @ r')"
      using i5 [of "af @ ae @ r'"] f2 x2 r' nomark by (auto simp: hd_append_if)
    obtain d ds' where ds: "ds = d # ds'" using i2 by (cases ds) auto
    have d: "d \<noteq> 0x2D" using i3 digit_is_no_mark(1) [of d] unfolding ds by simp
    have neg': "(case ?a @ r' of [] \<Rightarrow> False | c # _ \<Rightarrow> c = 0x2D) = neg"
      using d unfolding ds by (simp add: sg_def)
    have t1': "(if neg then tl (?a @ r') else ?a @ r') = ds @ af @ ae @ r'"
      by (simp add: sg_def)
    show ?thesis
      unfolding parse_number_def Let_def neg' t1' using it fr e n by simp
  qed
  from a1 a2 a3 a4 a5 show ?thesis by blast
qed

subsection \<open>Strings and white space\<close>

lemma cons_result_Some:
  "cons_result w x = Some (s, r) \<longleftrightarrow> (\<exists>s'. x = Some (s', r) \<and> s = w # s')"
  by (cases x) (auto simp: cons_result_def)

lemma parse_chars_stable:
  "parse_chars cs = Some (s, r) \<Longrightarrow>
     \<exists>a. cs = a @ r \<and> a \<noteq> [] \<and> last a = 0x22 \<and> (\<forall>r'. parse_chars (a @ r') = Some (s, r'))"
proof (induction cs arbitrary: s rule: length_induct)
  case (1 cs)
  note IH = 1(1) [rule_format] and p = 1(2)
  from p obtain c u where cs: "cs = c # u" by (cases cs) auto
  consider (quote) "c = 0x22"
    | (uni) h1 h2 h3 h4 u3 w where "c \<noteq> 0x22" "c = 0x5C" "u = 0x75 # h1 # h2 # h3 # h4 # u3"
        "hex4 h1 h2 h3 h4 = Some w"
    | (esc) e u2 w where "c \<noteq> 0x22" "c = 0x5C" "u = e # u2" "e \<noteq> 0x75" "simple_escape e = Some w"
    | (plain) "c \<noteq> 0x22" "c \<noteq> 0x5C" "\<not> c < 0x20"
    using p unfolding cs
    by (auto split: if_splits list.splits option.splits)
  then show ?case
  proof cases
    case quote
    with p cs have "s = []" "r = u" by simp_all
    with quote cs have "cs = [c] @ r \<and> [c] \<noteq> [] \<and> last [c] = 0x22 \<and>
        (\<forall>r'. parse_chars ([c] @ r') = Some (s, r'))" by simp
    then show ?thesis by blast
  next
    case uni
    with p cs obtain s' where s': "parse_chars u3 = Some (s', r)" and s: "s = w # s'"
      by (auto simp: cons_result_Some)
    have "length u3 < length cs" using cs uni(3) by simp
    from IH [OF this s'] obtain a where a: "u3 = a @ r" "a \<noteq> []" "last a = 0x22"
      "\<And>r'. parse_chars (a @ r') = Some (s', r')" by blast
    let ?a = "c # 0x75 # h1 # h2 # h3 # h4 # a"
    have "cs = ?a @ r" using cs uni(3) a(1) by simp
    moreover have "last ?a = 0x22" using a(2,3) by simp
    moreover have "parse_chars (?a @ r') = Some (s, r')" for r'
      using uni(1,2,4) a(4) [of r'] s by (simp add: cons_result_def)
    ultimately have "cs = ?a @ r \<and> ?a \<noteq> [] \<and> last ?a = 0x22 \<and>
        (\<forall>r'. parse_chars (?a @ r') = Some (s, r'))" by blast
    then show ?thesis by (rule exI)
  next
    case esc
    with p cs obtain s' where s': "parse_chars u2 = Some (s', r)" and s: "s = w # s'"
      by (auto simp: cons_result_Some)
    have "length u2 < length cs" using cs esc(3) by simp
    from IH [OF this s'] obtain a where a: "u2 = a @ r" "a \<noteq> []" "last a = 0x22"
      "\<And>r'. parse_chars (a @ r') = Some (s', r')" by blast
    let ?a = "c # e # a"
    have "cs = ?a @ r" using cs esc(3) a(1) by simp
    moreover have "last ?a = 0x22" using a(2,3) by simp
    moreover have "parse_chars (?a @ r') = Some (s, r')" for r'
      using esc(1,2,4,5) a(4) [of r'] s by (simp add: cons_result_def)
    ultimately have "cs = ?a @ r \<and> ?a \<noteq> [] \<and> last ?a = 0x22 \<and>
        (\<forall>r'. parse_chars (?a @ r') = Some (s, r'))" by blast
    then show ?thesis by (rule exI)
  next
    case plain
    with p cs obtain s' where s': "parse_chars u = Some (s', r)" and s: "s = c # s'"
      by (auto simp: cons_result_Some)
    have "length u < length cs" using cs by simp
    from IH [OF this s'] obtain a where a: "u = a @ r" "a \<noteq> []" "last a = 0x22"
      "\<And>r'. parse_chars (a @ r') = Some (s', r')" by blast
    let ?a = "c # a"
    have "cs = ?a @ r" using cs a(1) by simp
    moreover have "last ?a = 0x22" using a(2,3) by simp
    moreover have "parse_chars (?a @ r') = Some (s, r')" for r'
      using plain a(4) [of r'] s by (simp add: cons_result_def)
    ultimately have "cs = ?a @ r \<and> ?a \<noteq> [] \<and> last ?a = 0x22 \<and>
        (\<forall>r'. parse_chars (?a @ r') = Some (s, r'))" by blast
    then show ?thesis by (rule exI)
  qed
qed

lemma skip_ws_split:
  assumes "skip_ws t = c # cs"
  shows "\<exists>w. t = w @ c # cs \<and> (\<forall>x\<in>set w. is_json_ws x) \<and> \<not> is_json_ws c"
proof -
  have "t = takeWhile is_json_ws t @ c # cs"
    using assms takeWhile_dropWhile_id [of is_json_ws t] by (simp add: skip_ws_def)
  moreover have "\<forall>x\<in>set (takeWhile is_json_ws t). is_json_ws x" by (meson set_takeWhileD)
  moreover have "\<not> is_json_ws c"
    using assms hd_dropWhile [of is_json_ws t] by (simp add: skip_ws_def)
  ultimately show ?thesis by blast
qed

lemma skip_ws_append:
  assumes "\<forall>x\<in>set w. is_json_ws x" and "\<not> is_json_ws c"
  shows "skip_ws (w @ c # x) = c # x"
  using assms by (simp add: skip_ws_def dropWhile_append2)

lemma json_ws_is_space: "is_json_ws c \<Longrightarrow> is_space c"
  by (auto simp: is_json_ws_def is_space_def)

lemma json_ws_follows: "is_json_ws c \<Longrightarrow> follows (c # x)"
  by (auto simp: is_json_ws_def follows_def is_digit_def)

lemma digit_not_space: "is_digit c \<Longrightarrow> \<not> is_space c"
  by (auto simp: is_digit_def is_space_def word_le_nat_alt)

lemma skip_ws_Cons: "\<not> is_json_ws c \<Longrightarrow> skip_ws (c # y) = c # y"
  by (simp add: skip_ws_def)

lemma skip_ws_ws: "\<forall>x\<in>set w. is_json_ws x \<Longrightarrow> skip_ws (w @ y) = skip_ws y"
  by (simp add: skip_ws_def dropWhile_append2)

lemma parse_value_ws:
  assumes "\<forall>x\<in>set w. is_json_ws x"
  shows "parse_value (w @ y) = parse_value y"
  by (subst (1 2) parse_value.simps) (simp add: skip_ws_ws [OF assms])

lemma parse_members_ws:
  assumes "\<forall>x\<in>set w. is_json_ws x"
  shows "parse_members (w @ y) = parse_members y"
  by (subst (1 2) parse_members.simps) (simp add: skip_ws_ws [OF assms])

text \<open>A value behind white space is stable when it is stable without the white space.\<close>

lemma value_stable_ws:
  assumes w: "\<forall>x\<in>set w. is_json_ws x"
    and b: "u = b @ r" "b \<noteq> []" "\<not> is_space (last b)"
      "\<And>r'. follows r' \<Longrightarrow> parse_value (b @ r') = Some (v, r')"
  shows "value_stable (w @ u) v r"
proof -
  have "w @ u = (w @ b) @ r" using b(1) by simp
  moreover have "w @ b \<noteq> []" using b(2) by simp
  moreover have "\<not> is_space (last (w @ b))" using b(2,3) by simp
  moreover have "parse_value ((w @ b) @ r') = Some (v, r')" if "follows r'" for r'
    using b(4) [OF that] parse_value_ws [OF w, of "b @ r'"] by simp
  ultimately show ?thesis unfolding value_stable_def by blast
qed

lemma not_space_marks:
  "\<not> is_space 0x7D" "\<not> is_space 0x5D" "\<not> is_space 0x22" "\<not> is_space 0x65" "\<not> is_space 0x6C"
  by (simp_all add: is_space_def)

lemma not_ws_marks:
  "\<not> is_json_ws 0x7B" "\<not> is_json_ws 0x5B" "\<not> is_json_ws 0x22" "\<not> is_json_ws 0x2C"
  "\<not> is_json_ws 0x3A" "\<not> is_json_ws 0x7D" "\<not> is_json_ws 0x5D"
  by (simp_all add: is_json_ws_def)

lemma follows_marks: "follows (0x2C # x)" "follows (0x5D # x)" "follows (0x7D # x)"
  by (simp_all add: follows_def is_digit_def)

lemma follows_ws_append:
  assumes "\<forall>x\<in>set w. is_json_ws x" and "follows (d # y)"
  shows "follows (w @ d # y)"
  using assms json_ws_follows by (cases w) (auto simp: follows_def)

subsection \<open>Values\<close>

text \<open>
  The value that starts at a character which is no white space, by the kind of the
  value. The hypothesis on \<open>parse_members\<close> and \<open>parse_elements\<close> is the induction
  hypothesis of the lemma after these.
\<close>

lemma object_stable:
  assumes pv: "parse_value (0x7B # cs) = Some (v, r)"
    and IHM: "\<And>u kvs r. length u \<le> length cs \<Longrightarrow> parse_members u = Some (kvs, r) \<Longrightarrow>
               members_stable u kvs r"
  shows "\<exists>b. 0x7B # cs = b @ r \<and> b \<noteq> [] \<and> \<not> is_space (last b) \<and>
             (\<forall>r'. follows r' \<longrightarrow> parse_value (b @ r') = Some (v, r'))"
proof -
  have eq: "(case skip_ws cs of
        [] \<Rightarrow> None
      | d # ds \<Rightarrow>
          if d = 0x7D then Some (JObj [], ds)
          else (case parse_members (d # ds) of
                  None \<Rightarrow> None
                | Some (kvs, r) \<Rightarrow> Some (object_of kvs, r))) = Some (v, r)"
    using pv by (subst (asm) parse_value.simps) (simp add: skip_ws_Cons not_ws_marks)
  from eq obtain d ds where sk: "skip_ws cs = d # ds"
    by (cases "skip_ws cs") auto
  from skip_ws_split [OF sk] obtain w where w: "cs = w @ d # ds" "\<forall>x\<in>set w. is_json_ws x"
    "\<not> is_json_ws d" by blast
  show ?thesis
  proof (cases "d = 0x7D")
    case True
    with eq sk have v: "v = JObj []" and r: "r = ds" by simp_all
    let ?b = "0x7B # w @ [0x7D]"
    have "0x7B # cs = ?b @ r" using w(1) r True by simp
    moreover have "\<not> is_space (last ?b)" using not_space_marks by simp
    moreover have "parse_value (?b @ r') = Some (v, r')" for r'
      using v skip_ws_append [OF w(2) not_ws_marks(6), of r']
      by (subst parse_value.simps) (simp add: skip_ws_Cons not_ws_marks)
    ultimately have "0x7B # cs = ?b @ r \<and> ?b \<noteq> [] \<and> \<not> is_space (last ?b) \<and>
           (\<forall>r'. follows r' \<longrightarrow> parse_value (?b @ r') = Some (v, r'))" by simp
    then show ?thesis by (rule exI)
  next
    case False
    with eq sk obtain kvs where pm: "parse_members (d # ds) = Some (kvs, r)"
      and v: "v = object_of kvs" by (auto split: option.splits)
    have "length (d # ds) \<le> length cs" using w(1) by simp
    from IHM [OF this pm] obtain a where a: "d # ds = a @ r" "a \<noteq> []" "last a = 0x7D"
      "\<And>r'. parse_members (a @ r') = Some (kvs, r')"
      unfolding members_stable_def by blast
    from a(1,2) obtain a' where a': "a = d # a'" by (cases a) auto
    let ?b = "0x7B # w @ a"
    have "0x7B # cs = ?b @ r" using w(1) a(1) by simp
    moreover have "\<not> is_space (last ?b)" using a(2,3) not_space_marks by simp
    moreover have "parse_value (?b @ r') = Some (v, r')" for r'
      using False v skip_ws_append [OF w(2,3), of "a' @ r'"] a(4) [of r'] unfolding a'
      by (subst parse_value.simps) (simp add: skip_ws_Cons not_ws_marks)
    ultimately have "0x7B # cs = ?b @ r \<and> ?b \<noteq> [] \<and> \<not> is_space (last ?b) \<and>
           (\<forall>r'. follows r' \<longrightarrow> parse_value (?b @ r') = Some (v, r'))" by simp
    then show ?thesis by (rule exI)
  qed
qed

lemma array_stable:
  assumes pv: "parse_value (0x5B # cs) = Some (v, r)"
    and IHE: "\<And>u vs r. length u \<le> length cs \<Longrightarrow> parse_elements u = Some (vs, r) \<Longrightarrow>
               elements_stable u vs r"
  shows "\<exists>b. 0x5B # cs = b @ r \<and> b \<noteq> [] \<and> \<not> is_space (last b) \<and>
             (\<forall>r'. follows r' \<longrightarrow> parse_value (b @ r') = Some (v, r'))"
proof -
  have eq: "(case skip_ws cs of
        [] \<Rightarrow> None
      | d # ds \<Rightarrow>
          if d = 0x5D then Some (JArr [], ds)
          else (case parse_elements (d # ds) of
                  None \<Rightarrow> None
                | Some (vs, r) \<Rightarrow> Some (JArr vs, r))) = Some (v, r)"
    using pv by (subst (asm) parse_value.simps) (simp add: skip_ws_Cons not_ws_marks)
  from eq obtain d ds where sk: "skip_ws cs = d # ds"
    by (cases "skip_ws cs") auto
  from skip_ws_split [OF sk] obtain w where w: "cs = w @ d # ds" "\<forall>x\<in>set w. is_json_ws x"
    "\<not> is_json_ws d" by blast
  show ?thesis
  proof (cases "d = 0x5D")
    case True
    with eq sk have v: "v = JArr []" and r: "r = ds" by simp_all
    let ?b = "0x5B # w @ [0x5D]"
    have "0x5B # cs = ?b @ r" using w(1) r True by simp
    moreover have "\<not> is_space (last ?b)" using not_space_marks by simp
    moreover have "parse_value (?b @ r') = Some (v, r')" for r'
      using v skip_ws_append [OF w(2) not_ws_marks(7), of r']
      by (subst parse_value.simps) (simp add: skip_ws_Cons not_ws_marks)
    ultimately have "0x5B # cs = ?b @ r \<and> ?b \<noteq> [] \<and> \<not> is_space (last ?b) \<and>
           (\<forall>r'. follows r' \<longrightarrow> parse_value (?b @ r') = Some (v, r'))" by simp
    then show ?thesis by (rule exI)
  next
    case False
    with eq sk obtain vs where pe: "parse_elements (d # ds) = Some (vs, r)"
      and v: "v = JArr vs" by (auto split: option.splits)
    have "length (d # ds) \<le> length cs" using w(1) by simp
    from IHE [OF this pe] obtain a where a: "d # ds = a @ r" "a \<noteq> []" "last a = 0x5D"
      "\<And>r'. parse_elements (a @ r') = Some (vs, r')"
      unfolding elements_stable_def by blast
    from a(1,2) obtain a' where a': "a = d # a'" by (cases a) auto
    let ?b = "0x5B # w @ a"
    have "0x5B # cs = ?b @ r" using w(1) a(1) by simp
    moreover have "\<not> is_space (last ?b)" using a(2,3) not_space_marks by simp
    moreover have "parse_value (?b @ r') = Some (v, r')" for r'
      using False v skip_ws_append [OF w(2,3), of "a' @ r'"] a(4) [of r'] unfolding a'
      by (subst parse_value.simps) (simp add: skip_ws_Cons not_ws_marks)
    ultimately have "0x5B # cs = ?b @ r \<and> ?b \<noteq> [] \<and> \<not> is_space (last ?b) \<and>
           (\<forall>r'. follows r' \<longrightarrow> parse_value (?b @ r') = Some (v, r'))" by simp
    then show ?thesis by (rule exI)
  qed
qed

lemma string_stable:
  assumes pv: "parse_value (0x22 # cs) = Some (v, r)"
  shows "\<exists>b. 0x22 # cs = b @ r \<and> b \<noteq> [] \<and> \<not> is_space (last b) \<and>
             (\<forall>r'. follows r' \<longrightarrow> parse_value (b @ r') = Some (v, r'))"
proof -
  have eq: "(case parse_chars cs of None \<Rightarrow> None | Some (s, r) \<Rightarrow> Some (JStr s, r)) = Some (v, r)"
    using pv by (subst (asm) parse_value.simps) (simp add: skip_ws_Cons not_ws_marks)
  from eq obtain s where pc: "parse_chars cs = Some (s, r)" and v: "v = JStr s"
    by (auto split: option.splits)
  from parse_chars_stable [OF pc] obtain a where a: "cs = a @ r" "a \<noteq> []" "last a = 0x22"
    "\<And>r'. parse_chars (a @ r') = Some (s, r')" by blast
  let ?b = "0x22 # a"
  have "0x22 # cs = ?b @ r" using a(1) by simp
  moreover have "\<not> is_space (last ?b)" using a(2,3) not_space_marks by simp
  moreover have "parse_value (?b @ r') = Some (v, r')" for r'
    using v a(4) [of r'] by (subst parse_value.simps) (simp add: skip_ws_Cons not_ws_marks)
  ultimately have "0x22 # cs = ?b @ r \<and> ?b \<noteq> [] \<and> \<not> is_space (last ?b) \<and>
       (\<forall>r'. follows r' \<longrightarrow> parse_value (?b @ r') = Some (v, r'))" by simp
  then show ?thesis by (rule exI)
qed

lemma number_start: "c = 0x2D \<or> is_digit c \<Longrightarrow> \<not> is_json_ws c \<and> c \<noteq> 0x7B \<and> c \<noteq> 0x5B \<and> c \<noteq> 0x22"
  by (auto simp: is_digit_def is_json_ws_def)

lemma number_stable:
  assumes c: "c = 0x2D \<or> is_digit c"
    and pv: "parse_value (c # cs) = Some (v, r)"
  shows "\<exists>b. c # cs = b @ r \<and> b \<noteq> [] \<and> \<not> is_space (last b) \<and>
             (\<forall>r'. follows r' \<longrightarrow> parse_value (b @ r') = Some (v, r'))"
proof -
  note st = number_start [OF c]
  have sc: "skip_ws (c # y) = c # y" for y using st by (simp add: skip_ws_Cons)
  have "(case parse_number (c # cs) of None \<Rightarrow> None | Some (n, r) \<Rightarrow> Some (number_of n, r)) = Some (v, r)"
    using pv c st by (subst (asm) parse_value.simps) (simp add: sc)
  then obtain n where pn: "parse_number (c # cs) = Some (n, r)" and v: "v = number_of n"
    by (auto split: option.splits)
  from parse_number_stable [OF pn] obtain a where a: "c # cs = a @ r" "a \<noteq> []"
    "is_digit (last a)" "\<And>r'. follows r' \<Longrightarrow> parse_number (a @ r') = Some (n, r')"
    by blast
  from a(1,2) obtain a' where a': "a = c # a'" by (cases a) auto
  have "\<not> is_space (last a)" using a(3) by (rule digit_not_space)
  moreover have "parse_value (a @ r') = Some (v, r')" if "follows r'" for r'
    using c st v a(4) [OF that] unfolding a'
    by (subst parse_value.simps) (simp add: sc)
  ultimately have "c # cs = a @ r \<and> a \<noteq> [] \<and> \<not> is_space (last a) \<and>
     (\<forall>r'. follows r' \<longrightarrow> parse_value (a @ r') = Some (v, r'))" using a(1,2) by simp
  then show ?thesis by (rule exI)
qed

lemma literals:
  "js ''true'' = [0x74, 0x72, 0x75, 0x65]" "js ''false'' = [0x66, 0x61, 0x6C, 0x73, 0x65]"
  "js ''null'' = [0x6E, 0x75, 0x6C, 0x6C]"
  by (simp_all add: js_def)

lemma literal_stable:
  assumes c: "\<not> is_json_ws c" "c \<noteq> 0x7B" "c \<noteq> 0x5B" "c \<noteq> 0x22" "\<not> (c = 0x2D \<or> is_digit c)"
    and pv: "parse_value (c # cs) = Some (v, r)"
  shows "\<exists>b. c # cs = b @ r \<and> b \<noteq> [] \<and> \<not> is_space (last b) \<and>
             (\<forall>r'. follows r' \<longrightarrow> parse_value (b @ r') = Some (v, r'))"
proof -
  have lit: "(if prefix (js ''true'') (c # cs) then Some (JBool True, drop 4 (c # cs))
          else if prefix (js ''false'') (c # cs) then Some (JBool False, drop 5 (c # cs))
          else if prefix (js ''null'') (c # cs) then Some (JNull, drop 4 (c # cs))
          else None) = Some (v, r)"
    using pv c by (subst (asm) parse_value.simps) (simp add: skip_ws_Cons)
  have ev: "parse_value (0x74 # 0x72 # 0x75 # 0x65 # r') = Some (JBool True, r')"
    "parse_value (0x66 # 0x61 # 0x6C # 0x73 # 0x65 # r') = Some (JBool False, r')"
    "parse_value (0x6E # 0x75 # 0x6C # 0x6C # r') = Some (JNull, r')" for r'
    by (subst parse_value.simps, simp add: literals skip_ws_def is_json_ws_def is_digit_def)+
  consider (tru) "prefix (js ''true'') (c # cs)" "v = JBool True" "r = drop 4 (c # cs)"
    | (fls) "prefix (js ''false'') (c # cs)" "v = JBool False" "r = drop 5 (c # cs)"
    | (nul) "prefix (js ''null'') (c # cs)" "v = JNull" "r = drop 4 (c # cs)"
    using lit by (auto split: if_splits)
  then show ?thesis
  proof cases
    case tru
    let ?b = "[0x74, 0x72, 0x75, 0x65] :: jsstring"
    from tru(1) have "c # cs = ?b @ r" unfolding tru(3) prefix_def literals by auto
    moreover have "\<not> is_space (last ?b)" using not_space_marks by simp
    ultimately have "c # cs = ?b @ r \<and> ?b \<noteq> [] \<and> \<not> is_space (last ?b) \<and>
       (\<forall>r'. follows r' \<longrightarrow> parse_value (?b @ r') = Some (v, r'))" using ev tru(2) by simp
    then show ?thesis by (rule exI)
  next
    case fls
    let ?b = "[0x66, 0x61, 0x6C, 0x73, 0x65] :: jsstring"
    from fls(1) have "c # cs = ?b @ r" unfolding fls(3) prefix_def literals by auto
    moreover have "\<not> is_space (last ?b)" using not_space_marks by simp
    ultimately have "c # cs = ?b @ r \<and> ?b \<noteq> [] \<and> \<not> is_space (last ?b) \<and>
       (\<forall>r'. follows r' \<longrightarrow> parse_value (?b @ r') = Some (v, r'))" using ev fls(2) by simp
    then show ?thesis by (rule exI)
  next
    case nul
    let ?b = "[0x6E, 0x75, 0x6C, 0x6C] :: jsstring"
    from nul(1) have "c # cs = ?b @ r" unfolding nul(3) prefix_def literals by auto
    moreover have "\<not> is_space (last ?b)" using not_space_marks by simp
    ultimately have "c # cs = ?b @ r \<and> ?b \<noteq> [] \<and> \<not> is_space (last ?b) \<and>
       (\<forall>r'. follows r' \<longrightarrow> parse_value (?b @ r') = Some (v, r'))" using ev nul(2) by simp
    then show ?thesis by (rule exI)
  qed
qed

lemma value_stable_at:
  assumes c: "\<not> is_json_ws c"
    and pv: "parse_value (c # cs) = Some (v, r)"
    and IHE: "\<And>u vs r. length u \<le> length cs \<Longrightarrow> parse_elements u = Some (vs, r) \<Longrightarrow>
               elements_stable u vs r"
    and IHM: "\<And>u kvs r. length u \<le> length cs \<Longrightarrow> parse_members u = Some (kvs, r) \<Longrightarrow>
               members_stable u kvs r"
  shows "\<exists>b. c # cs = b @ r \<and> b \<noteq> [] \<and> \<not> is_space (last b) \<and>
             (\<forall>r'. follows r' \<longrightarrow> parse_value (b @ r') = Some (v, r'))"
proof -
  consider "c = 0x7B" | "c = 0x5B" | "c = 0x22" | "c = 0x2D \<or> is_digit c"
    | "c \<noteq> 0x7B" "c \<noteq> 0x5B" "c \<noteq> 0x22" "\<not> (c = 0x2D \<or> is_digit c)"
    by blast
  then show ?thesis
  proof cases
    case 1
    show ?thesis using object_stable [OF pv [unfolded 1] IHM] unfolding 1 by simp
  next
    case 2
    show ?thesis using array_stable [OF pv [unfolded 2] IHE] unfolding 2 by simp
  next
    case 3
    show ?thesis using string_stable [OF pv [unfolded 3]] unfolding 3 by simp
  next
    case 4
    then show ?thesis using pv by (rule number_stable)
  next
    case 5
    with c show ?thesis using pv by (intro literal_stable)
  qed
qed

lemma parse_stable:
  "(\<forall>v r. parse_value t = Some (v, r) \<longrightarrow> value_stable t v r) \<and>
   (\<forall>vs r. parse_elements t = Some (vs, r) \<longrightarrow> elements_stable t vs r) \<and>
   (\<forall>kvs r. parse_members t = Some (kvs, r) \<longrightarrow> members_stable t kvs r)"
proof (induction "length t" arbitrary: t rule: less_induct)
  case less
  have IHV: "value_stable u v r" if "length u < length t" "parse_value u = Some (v, r)" for u v r
    using less [OF that(1)] that(2) by blast
  have IHE: "elements_stable u vs r" if "length u < length t" "parse_elements u = Some (vs, r)"
    for u vs r
    using less [OF that(1)] that(2) by blast
  have IHM: "members_stable u kvs r" if "length u < length t" "parse_members u = Some (kvs, r)"
    for u kvs r
    using less [OF that(1)] that(2) by blast
  have V: "value_stable t v r" if pv: "parse_value t = Some (v, r)" for v r
  proof -
    from pv obtain c cs where sk: "skip_ws t = c # cs"
      by (subst (asm) parse_value.simps) (cases "skip_ws t", auto)
    from skip_ws_split [OF sk] obtain w where w: "t = w @ c # cs" "\<forall>x\<in>set w. is_json_ws x"
      "\<not> is_json_ws c" by blast
    have pv': "parse_value (c # cs) = Some (v, r)"
      using pv parse_value_ws [OF w(2), of "c # cs"] w(1) by simp
    have len: "length u < length t" if "length u \<le> length cs" for u
      using that w(1) by simp
    from value_stable_at [OF w(3) pv' IHE [OF len] IHM [OF len]]
    obtain b where b: "c # cs = b @ r" "b \<noteq> []" "\<not> is_space (last b)"
      "\<And>r'. follows r' \<Longrightarrow> parse_value (b @ r') = Some (v, r')" by blast
    show ?thesis unfolding w(1) using w(2) b by (rule value_stable_ws)
  qed
  have E: "elements_stable t vs r" if pe: "parse_elements t = Some (vs, r)" for vs r
  proof -
    from pe obtain v r1 where pv: "parse_value t = Some (v, r1)"
      by (subst (asm) parse_elements.simps) (auto split: option.splits)
    have eq: "(if length r1 < length t then
            (case skip_ws r1 of
               [] \<Rightarrow> None
             | d # ds \<Rightarrow>
                 if d = 0x2C then
                   (case parse_elements ds of
                      None \<Rightarrow> None
                    | Some (vs, r') \<Rightarrow> Some (v # vs, r'))
                 else if d = 0x5D then Some ([v], ds)
                 else None)
          else None) = Some (vs, r)"
      using pe pv by (subst (asm) parse_elements.simps) simp
    then have lt: "length r1 < length t" by (auto split: if_splits)
    with eq obtain d ds where sk: "skip_ws r1 = d # ds" by (cases "skip_ws r1") auto
    from skip_ws_split [OF sk] obtain w where w: "r1 = w @ d # ds" "\<forall>x\<in>set w. is_json_ws x"
      "\<not> is_json_ws d" by blast
    from V [OF pv] obtain a1 where a1: "t = a1 @ r1" "a1 \<noteq> []"
      "\<And>r'. follows r' \<Longrightarrow> parse_value (a1 @ r') = Some (v, r')"
      unfolding value_stable_def by blast
    have step: "parse_elements (a1 @ w @ d # y) =
        (if d = 0x2C then
           (case parse_elements y of None \<Rightarrow> None | Some (vs, r') \<Rightarrow> Some (v # vs, r'))
         else if d = 0x5D then Some ([v], y)
         else None)" if "follows (d # y)" for y
    proof -
      have "parse_value (a1 @ w @ d # y) = Some (v, w @ d # y)"
        using a1(3) [OF follows_ws_append [OF w(2) that]] .
      then show ?thesis
        using a1(2) skip_ws_append [OF w(2,3), of y]
        by (subst parse_elements.simps) simp
    qed
    show ?thesis
    proof (cases "d = 0x2C")
      case True
      with eq lt sk obtain vs' where pe': "parse_elements ds = Some (vs', r)" and vs: "vs = v # vs'"
        by (auto split: option.splits)
      have "length ds < length t" using w(1) lt by simp
      from IHE [OF this pe'] obtain a2 where a2: "ds = a2 @ r" "a2 \<noteq> []" "last a2 = 0x5D"
        "\<And>r'. parse_elements (a2 @ r') = Some (vs', r')"
        unfolding elements_stable_def by blast
      let ?a = "a1 @ w @ d # a2"
      have "t = ?a @ r" using a1(1) w(1) a2(1) by simp
      moreover have "last ?a = 0x5D" using a2(2,3) by simp
      moreover have "parse_elements (?a @ r') = Some (vs, r')" for r'
        using step [of "a2 @ r'"] follows_marks(1) True a2(4) [of r'] vs by simp
      ultimately have "t = ?a @ r \<and> ?a \<noteq> [] \<and> last ?a = 0x5D \<and>
          (\<forall>r'. parse_elements (?a @ r') = Some (vs, r'))" by simp
      then show ?thesis unfolding elements_stable_def by (rule exI)
    next
      case False
      with eq lt sk have d: "d = 0x5D" and vs: "vs = [v]" and r: "r = ds"
        by (auto split: if_splits)
      let ?a = "a1 @ w @ [d]"
      have "t = ?a @ r" using a1(1) w(1) r by simp
      moreover have "last ?a = 0x5D" using d by simp
      moreover have "parse_elements (?a @ r') = Some (vs, r')" for r'
        using step [of r'] follows_marks(2) d vs by simp
      ultimately have "t = ?a @ r \<and> ?a \<noteq> [] \<and> last ?a = 0x5D \<and>
          (\<forall>r'. parse_elements (?a @ r') = Some (vs, r'))" by simp
      then show ?thesis unfolding elements_stable_def by (rule exI)
    qed
  qed
  have M: "members_stable t kvs r" if pm: "parse_members t = Some (kvs, r)" for kvs r
  proof -
    from pm obtain q cs where sk: "skip_ws t = q # cs"
      by (subst (asm) parse_members.simps) (cases "skip_ws t", auto)
    from skip_ws_split [OF sk] obtain w0 where w0: "t = w0 @ q # cs" "\<forall>x\<in>set w0. is_json_ws x"
      "\<not> is_json_ws q" by blast
    have eq0: "(if q = 0x22 then
            (case parse_chars cs of
               None \<Rightarrow> None
             | Some (k, r) \<Rightarrow>
                 (case skip_ws r of
                    [] \<Rightarrow> None
                  | col # r1 \<Rightarrow>
                      if col = 0x3A then
                        (case parse_value r1 of
                           None \<Rightarrow> None
                         | Some (v, r2) \<Rightarrow>
                             if length r2 < length r1 then
                               (case skip_ws r2 of
                                  [] \<Rightarrow> None
                                | d # ds \<Rightarrow>
                                    if d = 0x2C then
                                      (case parse_members ds of
                                         None \<Rightarrow> None
                                       | Some (kvs, r') \<Rightarrow> Some ((k, v) # kvs, r'))
                                    else if d = 0x7D then Some ([(k, v)], ds)
                                    else None)
                             else None)
                      else None))
          else None) = Some (kvs, r)"
      using pm sk by (subst (asm) parse_members.simps) simp
    then have q: "q = 0x22" by (auto split: if_splits)
    with eq0 obtain k rk where pc: "parse_chars cs = Some (k, rk)"
      by (auto split: option.splits)
    with eq0 q obtain col r1 where sk1: "skip_ws rk = col # r1"
      by (cases "skip_ws rk") auto
    with eq0 q pc have col: "col = 0x3A" by (auto split: if_splits)
    with eq0 q pc sk1 obtain v r2 where pv: "parse_value r1 = Some (v, r2)"
      by (auto split: option.splits)
    with eq0 q pc sk1 col have lt: "length r2 < length r1" by (auto split: if_splits)
    with eq0 q pc sk1 col pv obtain d ds where sk2: "skip_ws r2 = d # ds"
      by (cases "skip_ws r2") auto
    have eq: "(if d = 0x2C then
            (case parse_members ds of
               None \<Rightarrow> None
             | Some (kvs, r') \<Rightarrow> Some ((k, v) # kvs, r'))
          else if d = 0x7D then Some ([(k, v)], ds)
          else None) = Some (kvs, r)"
      using eq0 q pc sk1 col pv lt sk2 by simp
    from parse_chars_stable [OF pc] obtain ak where ak: "cs = ak @ rk"
      "\<And>r'. parse_chars (ak @ r') = Some (k, r')" by blast
    from skip_ws_split [OF sk1] obtain w1 where w1: "rk = w1 @ col # r1"
      "\<forall>x\<in>set w1. is_json_ws x" "\<not> is_json_ws col" by blast
    from skip_ws_split [OF sk2] obtain w2 where w2: "r2 = w2 @ d # ds"
      "\<forall>x\<in>set w2. is_json_ws x" "\<not> is_json_ws d" by blast
    have "length r1 < length t" using w0(1) ak(1) w1(1) by simp
    from IHV [OF this pv] obtain a1 where a1: "r1 = a1 @ r2" "a1 \<noteq> []"
      "\<And>r'. follows r' \<Longrightarrow> parse_value (a1 @ r') = Some (v, r')"
      unfolding value_stable_def by blast
    let ?p = "w0 @ q # ak @ w1 @ col # a1 @ w2"
    have step: "parse_members (?p @ d # y) =
        (if d = 0x2C then
           (case parse_members y of
              None \<Rightarrow> None
            | Some (kvs, r') \<Rightarrow> Some ((k, v) # kvs, r'))
         else if d = 0x7D then Some ([(k, v)], y)
         else None)" if "follows (d # y)" for y
    proof -
      have "parse_value (a1 @ w2 @ d # y) = Some (v, w2 @ d # y)"
        using a1(3) [OF follows_ws_append [OF w2(2) that]] .
      then have "parse_members (q # ak @ w1 @ col # a1 @ w2 @ d # y) =
        (if d = 0x2C then
           (case parse_members y of
              None \<Rightarrow> None
            | Some (kvs, r') \<Rightarrow> Some ((k, v) # kvs, r'))
         else if d = 0x7D then Some ([(k, v)], y)
         else None)"
        using q col a1(2) ak(2) [of "w1 @ col # a1 @ w2 @ d # y"]
          skip_ws_append [OF w1(2,3), of "a1 @ w2 @ d # y"] skip_ws_append [OF w2(2,3), of y]
          skip_ws_Cons [OF w0(3)]
        by (subst parse_members.simps) simp
      then show ?thesis
        using parse_members_ws [OF w0(2), of "q # ak @ w1 @ col # a1 @ w2 @ d # y"] by simp
    qed
    have t: "t = ?p @ d # ds" using w0(1) ak(1) w1(1) a1(1) w2(1) by simp
    show ?thesis
    proof (cases "d = 0x2C")
      case True
      with eq obtain kvs' where pm': "parse_members ds = Some (kvs', r)"
        and kvs: "kvs = (k, v) # kvs'" by (auto split: option.splits)
      have "length ds < length t" using t by simp
      from IHM [OF this pm'] obtain a2 where a2: "ds = a2 @ r" "a2 \<noteq> []" "last a2 = 0x7D"
        "\<And>r'. parse_members (a2 @ r') = Some (kvs', r')"
        unfolding members_stable_def by blast
      let ?a = "?p @ d # a2"
      have "t = ?a @ r" using t a2(1) by simp
      moreover have "last ?a = 0x7D" using a2(2,3) by simp
      moreover have "parse_members (?a @ r') = Some (kvs, r')" for r'
        using step [of "a2 @ r'"] follows_marks(1) True a2(4) [of r'] kvs by simp
      ultimately have "t = ?a @ r \<and> ?a \<noteq> [] \<and> last ?a = 0x7D \<and>
          (\<forall>r'. parse_members (?a @ r') = Some (kvs, r'))" by simp
      then show ?thesis unfolding members_stable_def by (rule exI)
    next
      case False
      with eq have d: "d = 0x7D" and kvs: "kvs = [(k, v)]" and r: "r = ds"
        by (auto split: if_splits)
      let ?a = "?p @ [d]"
      have "t = ?a @ r" using t r by simp
      moreover have "last ?a = 0x7D" using d by simp
      moreover have "parse_members (?a @ r') = Some (kvs, r')" for r'
        using step [of r'] follows_marks(3) d kvs by simp
      ultimately have "t = ?a @ r \<and> ?a \<noteq> [] \<and> last ?a = 0x7D \<and>
          (\<forall>r'. parse_members (?a @ r') = Some (kvs, r'))" by simp
      then show ?thesis unfolding members_stable_def by (rule exI)
    qed
  qed
  from V E M show ?case by blast
qed


text \<open>
  A text that \<open>JSON.parse\<close> accepts is accepted, with the same value, once it is
  trimmed: the text is white space, the part that is read as the value, and white space.
\<close>

lemma value_start_not_space:
  assumes "parse_value t = Some (v, r)" and "skip_ws t = c # cs"
  shows "\<not> is_space c"
proof -
  have c: "c = 0x7B \<or> c = 0x5B \<or> c = 0x22 \<or> c = 0x2D \<or> is_digit c \<or> c = 0x74 \<or> c = 0x66 \<or>
      c = 0x6E"
    using assms
    by (subst (asm) parse_value.simps) (auto simp: literals split: if_splits)
  have "\<not> is_space 0x7B" "\<not> is_space 0x5B" "\<not> is_space 0x22" "\<not> is_space 0x2D"
    "\<not> is_space 0x74" "\<not> is_space 0x66" "\<not> is_space 0x6E"
    by (simp_all add: is_space_def)
  with c digit_not_space [of c] show ?thesis by auto
qed

lemma JSON_parse_js_trim:
  assumes "JSON_parse s = Some v"
  shows "JSON_parse (js_trim s) = Some v"
proof -
  from assms obtain r where pv: "parse_value s = Some (v, r)" and r: "skip_ws r = []"
    by (auto simp: JSON_parse_def split: option.splits if_splits)
  from pv obtain c cs where sk: "skip_ws s = c # cs"
    by (subst (asm) parse_value.simps) (cases "skip_ws s", auto)
  from skip_ws_split [OF sk] obtain w where w: "s = w @ c # cs" "\<forall>x\<in>set w. is_json_ws x"
    "\<not> is_json_ws c" by blast
  have c: "\<not> is_space c" using pv sk by (rule value_start_not_space)
  have pv': "parse_value (c # cs) = Some (v, r)"
    using pv parse_value_ws [OF w(2), of "c # cs"] w(1) by simp
  from parse_stable [of "c # cs"] pv' obtain a where a: "c # cs = a @ r" "a \<noteq> []"
    "\<not> is_space (last a)" "\<And>r'. follows r' \<Longrightarrow> parse_value (a @ r') = Some (v, r')"
    unfolding value_stable_def by blast
  from a(1,2) obtain a' where a': "a = c # a'" by (cases a) auto
  have rs: "\<forall>x\<in>set r. is_space x"
  proof
    fix x assume "x \<in> set r"
    moreover have "\<forall>x\<in>set r. is_json_ws x"
      using r by (simp add: skip_ws_def)
    ultimately show "is_space x" using json_ws_is_space by blast
  qed
  have ws: "\<forall>x\<in>set w. is_space x" using w(2) json_ws_is_space by blast
  have "dropWhile is_space s = a @ r"
    using ws c unfolding w(1) a(1) [symmetric] by (simp add: dropWhile_append2)
  moreover have "dropWhile is_space (rev r @ rev a) = rev a"
  proof -
    have "dropWhile is_space (rev r @ rev a) = dropWhile is_space (rev a)"
      by (rule dropWhile_append2) (use rs in simp)
    moreover have "dropWhile is_space (rev a) = rev a"
    proof -
      obtain x xs where ra: "rev a = x # xs" using a(2) by (cases "rev a") auto
      then have "a = rev xs @ [x]" by (simp add: rev_swap)
      then have "x = last a" by simp
      then show ?thesis unfolding ra using a(3) by simp
    qed
    ultimately show ?thesis by simp
  qed
  ultimately have "js_trim s = a" by (simp add: js_trim_def)
  moreover have "parse_value a = Some (v, [])" using a(4) [of "[]"] by (simp add: follows_def)
  ultimately show ?thesis by (simp add: JSON_parse_def skip_ws_def)
qed


text \<open>A valid JSON text without fence markers is parsed by \<open>parseJSON\<close> as it stands.\<close>

lemma parseJSON_valid:
  assumes "\<not> js_includes s backticks" and "JSON_parse s = Some v"
  shows "parseJSON s = v"
  using JSON_parse_js_trim [OF assms(2)] stripped_plain [OF assms(1)]
  by (simp add: parseJSON_stripped)

lemma ai_only_no_fence: "\<not> js_includes ai_only backticks"
  by (simp add: ai_only_def backticks_def js_def)

lemma json_tag_json: "json_tag (js ''json'')"
  by (simp add: json_tag_def is_fence_json_def backticks_def js_def)

lemma JSON_parse_backtick_object:
  "JSON_parse backtick_object = Some (JObj [(js ''a'', JStr backticks)])"
  by (simp add: backtick_object_def backticks_def json_eval js_def)

lemma parseJSON_backtick_object: "parseJSON backtick_object = JObj [(js ''a'', JStr [])]"
  by (simp add: backtick_object_def backticks_def json_eval normalizer_eval js_def)

section \<open>The claims\<close>



text \<open>
  C3. On every server, \<open>POST /api/analyze/text\<close> with the empty string as text answers
  400 with an error object, and the table is the one before the request.
\<close>

theorem empty_text_is_rejected:
  "analyze v Text e (req\<lparr>req_text := Some []\<rparr>) d =
     (\<lparr>sent_by = Guard, http_status = 400, body = JObj [(js ''error'', JStr (js ''Text is required''))]\<rparr>, d)"
  by (cases v) (simp_all add: handler_defs bad_request_def error_body_def)



text \<open>
  C4, as the code has it. For every user identifier \<open>x\<close>, with \<open>who\<close> the text that
  \<open>x || "anonymous"\<close> is stored and looked up as: \<open>GET /api/history?email=x\<close> returns at
  most the limit of the server (20, 20, 50), in descending order of creation time, rows
  of that user only; exactly the two rows when the user has two, none when the user has
  none; and after two inserts at times \<open>t1 < t2\<close>, which are in different seconds, for a
  user without rows, the later one first.
\<close>

theorem history_most_recent_first:
  fixes x :: "jsstring option"
  defines "who \<equiv> bound_text (or_else x (js ''anonymous''))"
  shows "length (get_history v x d) \<le> history_limit v \<and>
     sorted_wrt (\<lambda>a b. created_at b \<le> created_at a) (get_history v x d) \<and>
     set (get_history v x d) \<subseteq> set (rows_of who d) \<and>
     (length (rows_of who d) = 2 \<longrightarrow>
        length (get_history v x d) = 2 \<and> mset (get_history v x d) = mset (rows_of who d)) \<and>
     (rows_of who d = [] \<longrightarrow> get_history v x d = []) \<and>
     (rows_of who d = [] \<and> t1 < t2 \<longrightarrow>
        map result (get_history v x
          (insert_history t2 (or_else x (js ''anonymous'')) ty2 c2 r2
            (insert_history t1 (or_else x (js ''anonymous'')) ty1 c1 r1 d))) = [r2, r1])"
proof (intro conjI impI)
  show "length (get_history v x d) \<le> history_limit v"
    by (simp add: get_history_def select_history_props)
  show "sorted_wrt (\<lambda>a b. created_at b \<le> created_at a) (get_history v x d)"
    by (simp add: get_history_def select_history_props)
  show "set (get_history v x d) \<subseteq> set (rows_of who d)"
    by (simp add: get_history_def who_def select_history_props)
next
  assume two: "length (rows_of who d) = 2"
  then have le: "length (rows_of who d) \<le> history_limit v" using limit_ge_2 [of v] by simp
  show "length (get_history v x d) = 2"
    using select_history_all(2) [OF le [unfolded who_def]] two
    by (simp add: get_history_def who_def)
  show "mset (get_history v x d) = mset (rows_of who d)"
    using select_history_all(1) [OF le [unfolded who_def]] by (simp add: get_history_def who_def)
next
  assume "rows_of who d = []"
  then show "get_history v x d = []"
    by (simp add: get_history_def who_def select_history_def rows_of_def)
next
  assume "rows_of who d = [] \<and> t1 < t2"
  then show "map result (get_history v x
          (insert_history t2 (or_else x (js ''anonymous'')) ty2 c2 r2
            (insert_history t1 (or_else x (js ''anonymous'')) ty1 c1 r1 d))) = [r2, r1]"
    using select_history_two_inserts [of "or_else x (js ''anonymous'')" d t1 t2 "history_limit v"]
      limit_ge_2 [of v]
    by (simp add: get_history_def who_def)
qed

theorem history_most_recent_first_witness:
  "map row_id (get_history Dev (Some (js ''ann@example.org'')) example_table) = [3, 1] \<and>
   length (get_history Dev (Some (js ''ann@example.org'')) example_table) = 2 \<and>
   get_history Serverless (Some (js ''eve@example.org'')) example_table = [] \<and>
   map result (get_history Prod (Some (js ''eve@example.org''))
     (insert_history 200 (js ''eve@example.org'') (js ''link'') (js ''b'') (JBool True)
       (insert_history 100 (js ''eve@example.org'') (js ''text'') (js ''a'') JNull
          example_table))) = [JBool True, JNull]"
proof -
  have ann: "or_else (Some (js ''ann@example.org'')) (js ''anonymous'') = js ''ann@example.org''"
    by (simp add: or_else_def js_def)
  have eve: "or_else (Some (js ''eve@example.org'')) (js ''anonymous'') = js ''eve@example.org''"
    by (simp add: or_else_def js_def)
  have two: "length (rows_of (js ''ann@example.org'') example_table) = 2"
    by (simp add: rows_of_def example_table_def js_def)
  have none: "rows_of (js ''eve@example.org'') example_table = []"
    by (simp add: rows_of_def example_table_def js_def)
  have "length (get_history Dev (Some (js ''ann@example.org'')) example_table) = 2"
    using history_most_recent_first [of Dev "Some (js ''ann@example.org'')" example_table]
      two ann by simp
  moreover have "get_history Serverless (Some (js ''eve@example.org'')) example_table = []"
    using history_most_recent_first [of Serverless "Some (js ''eve@example.org'')" example_table]
      none eve by simp
  moreover have "map result (get_history Prod (Some (js ''eve@example.org''))
     (insert_history 200 (js ''eve@example.org'') (js ''link'') (js ''b'') (JBool True)
       (insert_history 100 (js ''eve@example.org'') (js ''text'') (js ''a'') JNull
          example_table))) = [JBool True, JNull]"
    using history_most_recent_first [of Prod "Some (js ''eve@example.org'')" example_table
        100 200 "js ''link''" "js ''b''" "JBool True" "js ''text''" "js ''a''" JNull]
      none eve by simp
  moreover have "map row_id (get_history Dev (Some (js ''ann@example.org'')) example_table) = [3, 1]"
    unfolding get_history_def select_history_def ann bound_text_js
    by (simp add: example_table_def js_def)
  ultimately show ?thesis by simp
qed

text \<open>
  C4 as stated fails: the statement sorts by \<open>created_at\<close> alone, which counts whole
  seconds. Two analyses of one user in the same second leave two rows with one time
  stamp, and the history returns them oldest first.
\<close>

theorem same_second_inserts_counterexample:
  "map row_id (get_history Dev (Some (js ''ann@example.org''))
     (step Dev (Analyze Text (example_env (Returned (Some human_only))) example_request)
       (step Dev (Analyze Text (example_env (Returned (Some ai_only))) example_request) []))) =
     [1, 2] \<and>
   map created_at (get_history Dev (Some (js ''ann@example.org''))
     (step Dev (Analyze Text (example_env (Returned (Some human_only))) example_request)
       (step Dev (Analyze Text (example_env (Returned (Some ai_only))) example_request) []))) =
     [1700000000, 1700000000] \<and>
   map result (get_history Dev (Some (js ''ann@example.org''))
     (step Dev (Analyze Text (example_env (Returned (Some human_only))) example_request)
       (step Dev (Analyze Text (example_env (Returned (Some ai_only))) example_request) []))) =
     [JObj [(js ''aiProbability'', JNum 30)], JObj [(js ''humanProbability'', JNum 40)]]"
proof -
  have h: "JSON_parse human_only = Some (JObj [(js ''humanProbability'', JNum 40)])"
    by (simp add: human_only_def json_eval js_def)
  have second: "step Dev (Analyze Text (example_env (Returned (Some human_only))) example_request)
       (step Dev (Analyze Text (example_env (Returned (Some ai_only))) example_request) []) =
     [\<lparr>row_id = 1, user_email = js ''ann@example.org'', row_type = js ''text'',
        content = js ''The quick brown fox.'', result = JObj [(js ''aiProbability'', JNum 30)],
        created_at = 1700000000\<rparr>,
      \<lparr>row_id = 2, user_email = js ''ann@example.org'', row_type = js ''text'',
        content = js ''The quick brown fox.'', result = JObj [(js ''humanProbability'', JNum 40)],
        created_at = 1700000000\<rparr>]"
    unfolding first_call using h human_only_not_empty
    by (simp add: analyze_text_dev_def example_env_def example_request_def or_else_def live_def
        insert_history_def js_def storage_eval)
  have ann: "or_else (Some (js ''ann@example.org'')) (js ''anonymous'') = js ''ann@example.org''"
    by (simp add: or_else_def js_def)
  show ?thesis
    unfolding second get_history_def select_history_def ann bound_text_js
    by simp
qed





text \<open>
  C9, as the code has it. On every server, \<open>POST /api/analyze/image\<close> answers 400
  when the file is missing. A reply sent by the \<open>try\<close> block has a body that is an
  object with the field \<open>exif\<close>, the parsed EXIF metadata or the empty object when
  parsing it failed, unless the payload of the model was an array, which is sent as it
  is; and when the payload is an object, the reply is sent by the \<open>try\<close> block with
  status 200 and carries \<open>exif\<close>.
\<close>

theorem image_reply_carries_exif:
  "(req_file req = None \<longrightarrow> http_status (fst (analyze v Image e req d)) = 400) \<and>
   (req_file req = Some file \<and> sent_by (fst (analyze v Image e req d)) = Try \<longrightarrow>
      exif_of (body (fst (analyze v Image e req d))) =
        Some (case exif_data file of None \<Rightarrow> JObj [] | Some x \<Rightarrow> x) \<or>
      (\<exists>xs. body (fst (analyze v Image e req d)) = JArr xs)) \<and>
   (req_file req = Some file \<and> outcome e = Returned rt \<and> payload v rt = Some (JObj kvs) \<longrightarrow>
      sent_by (fst (analyze v Image e req d)) = Try \<and>
      http_status (fst (analyze v Image e req d)) = 200 \<and>
      exif_of (body (fst (analyze v Image e req d))) =
        Some (case exif_data file of None \<Rightarrow> JObj [] | Some x \<Rightarrow> x))"
proof (intro conjI impI)
  assume "req_file req = None"
  then show "http_status (fst (analyze v Image e req d)) = 400"
    by (cases v) (simp_all add: handler_defs bad_request_def)
next
  assume "req_file req = Some file \<and> sent_by (fst (analyze v Image e req d)) = Try"
  then show "exif_of (body (fst (analyze v Image e req d))) =
        Some (case exif_data file of None \<Rightarrow> JObj [] | Some x \<Rightarrow> x) \<or>
      (\<exists>xs. body (fst (analyze v Image e req d)) = JArr xs)"
    using image_try_body by blast
next
  assume a: "req_file req = Some file \<and> outcome e = Returned rt \<and> payload v rt = Some (JObj kvs)"
  then have all3: "sent_by (fst (analyze v Image e req d)) = Try \<and>
         http_status (fst (analyze v Image e req d)) = 200 \<and>
         exif_of (body (fst (analyze v Image e req d))) =
           Some (case exif_data file of None \<Rightarrow> JObj [] | Some x \<Rightarrow> x)"
    using image_object_payload by blast
  from all3 show "sent_by (fst (analyze v Image e req d)) = Try" by blast
  from all3 show "http_status (fst (analyze v Image e req d)) = 200" by blast
  from all3 show "exif_of (body (fst (analyze v Image e req d))) =
           Some (case exif_data file of None \<Rightarrow> JObj [] | Some x \<Rightarrow> x)" by blast
qed

theorem image_reply_carries_exif_witness:
  "http_status (fst (analyze Dev Image (example_env (Returned (Some ai_only)))
       (example_request\<lparr>req_file := None\<rparr>) [])) = 400 \<and>
   sent_by (fst (analyze Dev Image (example_env (Returned (Some ai_only))) example_request [])) = Try \<and>
   exif_of (body (fst (analyze Dev Image (example_env (Returned (Some ai_only))) example_request []))) =
     Some (JObj [])"
proof -
  have f: "req_file example_request = Some \<lparr>originalname = js ''cat.jpg'', exif_data = None\<rparr>"
    by (simp add: example_request_def)
  have o: "outcome (example_env (Returned (Some ai_only))) = Returned (Some ai_only)"
    by (simp add: example_env_def)
  have p: "payload Dev (Some ai_only) = Some (JObj [(js ''aiProbability'', JNum 30)])"
    using JSON_parse_ai_only ai_only_not_empty by (simp add: or_else_def)
  note inst1 = image_reply_carries_exif [of "example_request\<lparr>req_file := None\<rparr>" Dev
      "example_env (Returned (Some ai_only))" "[]"]
  note inst2 = image_reply_carries_exif [of example_request Dev
      "example_env (Returned (Some ai_only))" "[]"
      "\<lparr>originalname = js ''cat.jpg'', exif_data = None\<rparr>" "Some ai_only"
      "[(js ''aiProbability'', JNum 30)]"]
  have "http_status (fst (analyze Dev Image (example_env (Returned (Some ai_only)))
       (example_request\<lparr>req_file := None\<rparr>) [])) = 400"
    using inst1 by simp
  moreover have "sent_by (fst (analyze Dev Image (example_env (Returned (Some ai_only)))
        example_request [])) = Try \<and>
      exif_of (body (fst (analyze Dev Image (example_env (Returned (Some ai_only)))
        example_request []))) = Some (JObj [])"
    using inst2 f o p by simp
  ultimately show ?thesis by blast
qed

text \<open>
  C9 as stated fails: the quota fallback of the image handler sends the canned result,
  which has no field \<open>exif\<close>.
\<close>

theorem quota_fallback_without_exif_counterexample:
  "fst (analyze Dev Image (example_env (Threw rate_limited)) example_request []) =
     \<lparr>sent_by = Quota, http_status = 200, body = mockImageResult_dev\<rparr> \<and>
   exif_of mockImageResult_dev = None"
  by (simp add: analyze_image_dev_def example_env_def example_request_def rate_limited_def
      isQuotaError_def fallback_def exif_of_def mockImageResult_dev_def js_def)

text \<open>
  C6, as the code has it. For every input that contains no JSON object pattern (no
  \<open>{\<close> with a \<open>}\<close> after it) and whose text, once fences are removed and it is
  trimmed, is not valid JSON, \<open>parseJSON\<close> returns the empty object. \<open>parseJSON\<close>
  returns a value on every string: each \<open>JSON.parse\<close> in it stands in a \<open>try\<close>
  block whose \<open>catch\<close> goes on, so its model has no error value.
\<close>

theorem no_json_gives_empty_object:
  assumes "\<not> object_pattern text'" and "JSON_parse (stripped text') = None"
  shows "parseJSON text' = JObj []"
proof -
  have "\<not> object_pattern (stripped text')"
    using assms(1) object_pattern_subseq [OF _ subseq_stripped] by blast
  then have "match_braces (stripped text') = None" by (simp add: match_braces_None)
  with assms(2) show ?thesis by (simp add: parseJSON_stripped)
qed

theorem no_json_gives_empty_object_witness: "parseJSON apology = JObj []"
proof -
  have "\<not> object_pattern apology"
    by (simp add: object_pattern_def apology_def js_def)
  moreover have "JSON_parse (stripped apology) = None"
    unfolding stripped_apology by (simp add: apology_def json_eval js_def)
  ultimately show ?thesis by (rule no_json_gives_empty_object)
qed

text \<open>
  C6 as stated fails: the input \<open>42\<close> contains no JSON object pattern, and
  \<open>parseJSON\<close> returns the number 42, not the empty object.
\<close>

theorem number_is_not_empty_object_counterexample:
  "\<not> object_pattern (js ''42'') \<and> parseJSON (js ''42'') = JNum 42"
  by (simp add: object_pattern_def json_eval normalizer_eval js_def)

text \<open>
  C5, as the code has it. For every text \<open>s\<close> that contains no three backticks in a
  row, wrapping \<open>s\<close> in a Markdown fence (three backticks, an optional \<open>json\<close> tag in
  any case, a line feed, \<open>s\<close>, a line feed, three backticks) and passing it to
  \<open>parseJSON\<close> gives what \<open>parseJSON\<close> gives on \<open>s\<close> itself; and when \<open>s\<close> is the
  serialisation of a JSON value \<open>obj\<close> (\<open>JSON.parse\<close> reads \<open>obj\<close> from it), the fenced
  text is normalised to \<open>obj\<close>.
\<close>

theorem fenced_json_is_recovered:
  assumes "\<not> js_includes s backticks" and "json_tag lang"
  shows "parseJSON (fence_wrap lang s) = parseJSON s \<and>
         (JSON_parse s = Some obj \<longrightarrow> parseJSON (fence_wrap lang s) = obj)"
proof -
  have "stripped (fence_wrap lang s) = stripped s"
    using stripped_fence_wrap [OF assms] stripped_plain [OF assms(1)] by simp
  then have eq: "parseJSON (fence_wrap lang s) = parseJSON s" by (rule parseJSON_cong)
  then show ?thesis using parseJSON_valid [OF assms(1)] by simp
qed

theorem fenced_json_is_recovered_witness:
  "parseJSON (fence_wrap (js ''json'') ai_only) = JObj [(js ''aiProbability'', JNum 30)]"
proof -
  note inst = fenced_json_is_recovered [OF ai_only_no_fence json_tag_json,
      of "JObj [(js ''aiProbability'', JNum 30)]"]
  from inst have "JSON_parse ai_only = Some (JObj [(js ''aiProbability'', JNum 30)]) \<longrightarrow>
      parseJSON (fence_wrap (js ''json'') ai_only) = JObj [(js ''aiProbability'', JNum 30)]"
    by (rule conjunct2)
  with JSON_parse_ai_only show ?thesis by (rule rev_mp)
qed

text \<open>
  C5 as stated fails: the object whose member \<open>a\<close> is the string of three backticks
  is serialised to a text that \<open>JSON.parse\<close> reads back, but \<open>parseJSON\<close> removes every
  run of three backticks from the fenced text, also the one inside the string, and
  returns an object whose member \<open>a\<close> is the empty string.
\<close>

theorem backticks_in_a_string_counterexample:
  "JSON_parse backtick_object = Some (JObj [(js ''a'', JStr backticks)]) \<and>
   parseJSON (fence_wrap (js ''json'') backtick_object) = JObj [(js ''a'', JStr [])]"
proof -
  have "parseJSON (fence_wrap (js ''json'') backtick_object) = JObj [(js ''a'', JStr [])]"
    by (simp add: fence_wrap_def backtick_object_def backticks_def json_eval normalizer_eval js_def)
  with JSON_parse_backtick_object show ?thesis by simp
qed

text \<open>
  C7, as the code has it. \<open>parseJSON\<close> removes the fence markers and trims before its
  first \<open>JSON.parse\<close>; it never parses the raw text. Its result is that of the order
  of the specification (\<open>parseJSON_spec\<close>: strict parse of the raw text, then of the
  text without fences, then of the \<open>{...}\<close> match, then the empty object) for every
  raw text that is not valid JSON or contains no three backticks in a row.
\<close>

theorem normalizer_agrees_with_specified_order:
  assumes "JSON_parse raw = None \<or> \<not> js_includes raw backticks"
  shows "parseJSON raw = parseJSON_spec raw"
proof (cases "JSON_parse raw")
  case None
  then show ?thesis by (simp add: parseJSON_spec_def parseJSON_stripped)
next
  case (Some v)
  with assms have "\<not> js_includes raw backticks" by simp
  then have "parseJSON raw = v" using Some by (rule parseJSON_valid)
  with Some show ?thesis by (simp add: parseJSON_spec_def)
qed

theorem normalizer_agrees_with_specified_order_witness:
  "parseJSON (fence_wrap (js ''json'') ai_only) = parseJSON_spec (fence_wrap (js ''json'') ai_only) \<and>
   parseJSON ai_only = parseJSON_spec ai_only"
proof -
  have "JSON_parse (fence_wrap (js ''json'') ai_only) = None"
    by (simp add: fence_wrap_def ai_only_def backticks_def json_eval js_def)
  then have "parseJSON (fence_wrap (js ''json'') ai_only) =
      parseJSON_spec (fence_wrap (js ''json'') ai_only)"
    using normalizer_agrees_with_specified_order [of "fence_wrap (js ''json'') ai_only"] by simp
  moreover have "parseJSON ai_only = parseJSON_spec ai_only"
    using normalizer_agrees_with_specified_order [of ai_only] ai_only_no_fence by simp
  ultimately show ?thesis by simp
qed

text \<open>
  C7 as stated fails: the serialisation of the object whose member \<open>a\<close> is the
  string of three backticks is valid JSON, so a strict parse of the raw text would
  return that object; \<open>parseJSON\<close> strips first and returns an object whose member
  \<open>a\<close> is the empty string.
\<close>

theorem strip_before_parse_counterexample:
  "parseJSON backtick_object = JObj [(js ''a'', JStr [])] \<and>
   parseJSON_spec backtick_object = JObj [(js ''a'', JStr backticks)]"
  using parseJSON_backtick_object JSON_parse_backtick_object
  by (simp add: parseJSON_spec_def)


end
